theory Spec2Isabelle
  imports Main "HOL-Library.AList"
begin

section \<open>The dependency planner (kanban-planner.js)\<close>

subsection \<open>Strings and the dependency patterns\<close>

text \<open>
  A JavaScript string is modelled as a list of code units below 256. The four patterns of
  \<open>DEP_PATTERNS\<close> all have the shape
  \<^verbatim>\<open>/word(\s+word)*[:\s]+\[([a-zA-Z0-9]+)\]/gi\<close>,
  so a pattern is kept as its list of keywords. Every repetition of the shape is followed
  by a character outside its class, so the greedy match below takes the same decisions
  as the backtracking matcher of the regular-expression engine.
\<close>

definition lower_case :: string where
  "lower_case = ''abcdefghijklmnopqrstuvwxyz''"

definition upper_case :: string where
  "upper_case = ''ABCDEFGHIJKLMNOPQRSTUVWXYZ''"

definition digits :: string where
  "digits = ''0123456789''"

definition is_space :: "char \<Rightarrow> bool" where
  \<comment> \<open>\<open>\s\<close> on code units below 256: TAB, LF, VT, FF, CR, SPACE and NBSP\<close>
  "is_space c =
     (c \<in> set [CHR 0x09, CHR 0x0A, CHR 0x0B, CHR 0x0C, CHR 0x0D, CHR 0x20, CHR 0xA0])"

definition is_sep :: "char \<Rightarrow> bool" where
  \<comment> \<open>the class \<open>[:\s]\<close>\<close>
  "is_sep c = (c = CHR '':'' \<or> is_space c)"

definition is_alnum :: "char \<Rightarrow> bool" where
  \<comment> \<open>the class \<open>[a-zA-Z0-9]\<close>\<close>
  "is_alnum c = (c \<in> set (lower_case @ upper_case @ digits))"

definition canonicalize :: "char \<Rightarrow> char" where
  \<comment> \<open>the \<open>i\<close> flag: ASCII letters compare by their upper case; no code unit from 128
      to 255 is folded onto an ASCII letter\<close>
  "canonicalize c =
     (case map_of (zip lower_case upper_case) c of Some u \<Rightarrow> u | None \<Rightarrow> c)"

fun match_lit :: "string \<Rightarrow> string \<Rightarrow> string option" where
  "match_lit [] s = Some s"
| "match_lit (p # ps) [] = None"
| "match_lit (p # ps) (c # cs) =
     (if canonicalize c = canonicalize p then match_lit ps cs else None)"

definition match_plus :: "(char \<Rightarrow> bool) \<Rightarrow> string \<Rightarrow> (string \<times> string) option" where
  \<comment> \<open>\<open>[class]+\<close>: the longest non-empty run of the class, and the rest\<close>
  "match_plus P s =
     (if takeWhile P s = [] then None else Some (takeWhile P s, dropWhile P s))"

fun match_words :: "string list \<Rightarrow> string \<Rightarrow> string option" where
  "match_words [] s = Some s"
| "match_words [w] s = match_lit w s"
| "match_words (w # ws) s =
     (case match_lit w s of
        None \<Rightarrow> None
      | Some r \<Rightarrow>
          (case match_plus is_space r of
             None \<Rightarrow> None
           | Some (sp, r') \<Rightarrow> match_words ws r'))"

definition match_here :: "string list \<Rightarrow> string \<Rightarrow> (string \<times> string) option" where
  \<comment> \<open>one attempt of a pattern at the head of the text: the captured id and the text
      after the match\<close>
  "match_here kw s =
     (case match_words kw s of
        None \<Rightarrow> None
      | Some r1 \<Rightarrow>
          (case match_plus is_sep r1 of
             None \<Rightarrow> None
           | Some (sep, r2) \<Rightarrow>
               (case match_lit ''['' r2 of
                  None \<Rightarrow> None
                | Some r3 \<Rightarrow>
                    (case match_plus is_alnum r3 of
                       None \<Rightarrow> None
                     | Some (cap, r4) \<Rightarrow>
                         (case match_lit '']'' r4 of
                            None \<Rightarrow> None
                          | Some r5 \<Rightarrow> Some (cap, r5))))))"

lemma match_lit_length: "match_lit p s = Some r \<Longrightarrow> length r + length p = length s"
  by (induction p s rule: match_lit.induct) (auto split: if_splits)

lemma match_plus_length: "match_plus P s = Some (m, r) \<Longrightarrow> length r < length s"
proof -
  assume a: "match_plus P s = Some (m, r)"
  then have "takeWhile P s \<noteq> []" and "r = dropWhile P s"
    by (auto simp: match_plus_def split: if_splits)
  moreover have "length (takeWhile P s) + length (dropWhile P s) = length s"
    by (metis length_append takeWhile_dropWhile_id)
  ultimately show ?thesis by (cases "takeWhile P s") auto
qed

lemma match_words_length: "match_words kw s = Some r \<Longrightarrow> length r \<le> length s"
proof (induction kw s arbitrary: r rule: match_words.induct)
  case (1 s)
  then show ?case by simp
next
  case (2 w s)
  then show ?case using match_lit_length [of w s r] by simp
next
  case (3 w v va s)
  from "3.prems" obtain r1 sp r2 where
    a: "match_lit w s = Some r1" and b: "match_plus is_space r1 = Some (sp, r2)"
    and c: "match_words (v # va) r2 = Some r"
    by (auto split: option.splits)
  from "3.IH" a b c have "length r \<le> length r2" by simp
  with match_lit_length [OF a] match_plus_length [OF b] show ?case by simp
qed

lemma match_here_length: "match_here kw s = Some (cap, r) \<Longrightarrow> length r < length s"
  by (auto simp: match_here_def split: option.splits prod.splits
      dest!: match_plus_length match_lit_length match_words_length)

text \<open>
  The loop \<^verbatim>\<open>while ((match = pattern.exec(text)) !== null)\<close> of a global pattern:
  the leftmost match from \<open>lastIndex\<close> on, then again from the end of that match.
\<close>

function exec_all :: "string list \<Rightarrow> string \<Rightarrow> string list" where
  "exec_all kw [] = []"
| "exec_all kw (c # cs) =
     (case match_here kw (c # cs) of
        Some (cap, r) \<Rightarrow> cap # exec_all kw r
      | None \<Rightarrow> exec_all kw cs)"
  by pat_completeness auto
termination
  by (relation "measure (\<lambda>(kw, s). length s)") (auto dest: match_here_length)

definition DEP_PATTERNS :: "string list list" where
  "DEP_PATTERNS = [[''blocked'', ''by''], [''depends'', ''on''], [''after''], [''requires'']]"

definition set_add :: "'a \<Rightarrow> 'a list \<Rightarrow> 'a list" where
  \<comment> \<open>\<open>Set.prototype.add\<close> on an insertion-ordered set\<close>
  "set_add x xs = (if x \<in> set xs then xs else xs @ [x])"

definition parseDependencies :: "string option \<Rightarrow> string list" where
  "parseDependencies taskDescription =
     (case taskDescription of
        None \<Rightarrow> []
      | Some s \<Rightarrow>
          if s = [] then []
          else fold (\<lambda>pattern deps. fold set_add (exec_all pattern s) deps) DEP_PATTERNS [])"

subsection \<open>The dependency graph\<close>

text \<open>
  A task as the task store returns it, with the fields the planner reads: ids are
  strings, a priority is a number, a description may be missing.
\<close>

record TaskRecord =
  task_id :: string
  title :: string
  description :: "string option"
  priority :: int

record node =
  task :: TaskRecord
  deps :: "string list"
  node_priority :: int
  dependents :: "string list"

text \<open>
  A JavaScript \<open>Map\<close> keeps its keys in insertion order, and \<open>set\<close> on a key it has
  replaces the value where the key stands: an association list under \<open>AList.update\<close>.
\<close>

type_synonym graph = "(string \<times> node) list"

definition add_dependent :: "string \<Rightarrow> string \<Rightarrow> graph \<Rightarrow> graph" where
  \<comment> \<open>\<^verbatim>\<open>const depNode = graph.get(dep); if (depNode) depNode.dependents.push(id)\<close>\<close>
  "add_dependent ident dep g =
     (case map_of g dep of
        None \<Rightarrow> g
      | Some depNode \<Rightarrow> AList.update dep (depNode\<lparr>dependents := dependents depNode @ [ident]\<rparr>) g)"

definition make_node :: "string set \<Rightarrow> TaskRecord \<Rightarrow> node" where
  "make_node taskIds t =
     \<lparr>task = t,
      deps = filter (\<lambda>d. d \<in> taskIds) (parseDependencies (description t)),
      node_priority = priority t,
      dependents = []\<rparr>"

definition build_nodes :: "TaskRecord list \<Rightarrow> graph" where
  \<comment> \<open>the first loop of \<open>buildDependencyGraph\<close>\<close>
  "build_nodes tasks =
     fold (\<lambda>t g. AList.update (task_id t) (make_node (task_id ` set tasks) t) g) tasks []"

definition fill_dependents :: "graph \<Rightarrow> graph" where
  \<comment> \<open>the second loop: it changes \<open>dependents\<close> only, so the entries it walks are those of
      the graph it starts from\<close>
  "fill_dependents g0 =
     fold (\<lambda>(ident, n) g. fold (add_dependent ident) (deps n) g) g0 g0"

definition buildDependencyGraph :: "TaskRecord list \<Rightarrow> graph" where
  "buildDependencyGraph tasks = fill_dependents (build_nodes tasks)"

subsection \<open>Topological sort in waves\<close>

definition allDepsCompleted :: "graph \<Rightarrow> string set \<Rightarrow> string \<Rightarrow> bool" where
  \<comment> \<open>\<open>graph.get(id)\<close> is defined for every id of \<open>remaining\<close>, which holds keys of the
      graph only\<close>
  "allDepsCompleted g completed ident =
     (case map_of g ident of
        None \<Rightarrow> False
      | Some n \<Rightarrow> list_all (\<lambda>d. d \<in> completed) (deps n))"

definition priority_of :: "graph \<Rightarrow> string \<Rightarrow> int" where
  "priority_of g ident = (case map_of g ident of None \<Rightarrow> 0 | Some n \<Rightarrow> node_priority n)"

text \<open>
  The \<open>while\<close> loop of \<open>topologicalSort\<close>. \<open>completed\<close> is read by \<open>has\<close> only, so it is a
  set; \<open>remaining\<close> is walked in insertion order, so it is a list, and \<open>delete\<close> filters
  it. The result carries the waves and what the loop wrote to the error stream when it
  stopped: the ids of \<open>remaining\<close> after "Circular dependency detected!", or nothing.
  \<open>Array.prototype.sort\<close> is stable, as is the insertion sort \<open>sort_key\<close>, and the
  comparator \<^verbatim>\<open>pa - pb\<close> orders the ids by the priority of their nodes.
\<close>

function topo_loop ::
  "graph \<Rightarrow> string set \<Rightarrow> string list \<Rightarrow> string list list
     \<Rightarrow> string list list \<times> string list option" where
  "topo_loop g completed remaining waves =
     (if remaining = [] then (waves, None)
      else
        let ready = filter (allDepsCompleted g completed) remaining in
        if ready = [] then (waves, Some remaining)
        else
          let sorted_ready = sort_key (priority_of g) ready in
          topo_loop g (completed \<union> set sorted_ready)
            (filter (\<lambda>ident. ident \<notin> set sorted_ready) remaining)
            (waves @ [sorted_ready]))"
  by pat_completeness auto
termination
proof (relation "measure (\<lambda>(g, completed, remaining, waves). length remaining)", goal_cases)
  case 1
  show ?case by simp
next
  case (2 g completed remaining waves ready sorted_ready)
  from 2 obtain x where x: "x \<in> set ready"
    by (metis list.set_intros(1) neq_Nil_conv)
  with 2 have "x \<in> set remaining" "x \<in> set sorted_ready"
    by auto
  then have "length (filter (\<lambda>ident. ident \<notin> set sorted_ready) remaining) < length remaining"
    by (metis (mono_tags, lifting) length_filter_less)
  then show ?case by simp
qed

definition topologicalSort_report :: "graph \<Rightarrow> string list list \<times> string list option" where
  "topologicalSort_report g = topo_loop g {} (map fst g) []"

definition topologicalSort :: "graph \<Rightarrow> string list list" where
  "topologicalSort g = fst (topologicalSort_report g)"

declare topo_loop.simps [simp del]

subsection \<open>The plan\<close>

text \<open>
  \<open>generatePlan\<close>, with the fields of \<open>summary\<close> next to those of the plan, and \<open>main\<close> from
  the tasks fetched to the plan it prints. \<open>graph.get(id)\<close> of an id that is no key is
  \<open>undefined\<close>, and reading a property of it is a \<open>TypeError\<close>.
\<close>

record project =
  project_id :: string
  project_name :: string
  project_path :: string

record plan_task =
  pt_id :: string
  pt_title :: string
  pt_priority :: int
  pt_deps :: "string list"
  pt_description :: "string option"

record plan_wave =
  level :: nat
  wave_tasks :: "plan_task list"
  parallel :: bool
  wave_maxParallel :: int

record plan =
  plan_project :: project
  totalTasks :: nat
  totalWaves :: nat
  maxParallel :: int
  plan_waves :: "plan_wave list"

datatype planner_error = NoTodoTasks | TypeError

definition plan_task_of :: "graph \<Rightarrow> string \<Rightarrow> plan_task option" where
  "plan_task_of g ident =
     (case map_of g ident of
        None \<Rightarrow> None
      | Some n \<Rightarrow>
          Some \<lparr>pt_id = ident, pt_title = title (task n), pt_priority = node_priority n,
                pt_deps = deps n, pt_description = description (task n)\<rparr>)"

fun plan_waves_from :: "graph \<Rightarrow> int \<Rightarrow> nat \<Rightarrow> string list list \<Rightarrow> plan_wave list option" where
  "plan_waves_from g mp i [] = Some []"
| "plan_waves_from g mp i (taskIds # rest) =
     (case those (map (plan_task_of g) taskIds) of
        None \<Rightarrow> None
      | Some waveTasks \<Rightarrow>
          map_option
            (Cons \<lparr>level = i, wave_tasks = waveTasks, parallel = (length taskIds > 1),
                    wave_maxParallel = min (int (length taskIds)) mp\<rparr>)
            (plan_waves_from g mp (Suc i) rest))"

definition generatePlan :: "project \<Rightarrow> graph \<Rightarrow> string list list \<Rightarrow> int \<Rightarrow> planner_error + plan" where
  "generatePlan p g waves mp =
     (case plan_waves_from g mp 0 waves of
        None \<Rightarrow> Inl TypeError
      | Some ws \<Rightarrow>
          Inr \<lparr>plan_project = p, totalTasks = length g, totalWaves = length waves,
               maxParallel = mp, plan_waves = ws\<rparr>)"

definition main_plan :: "project \<Rightarrow> TaskRecord list \<Rightarrow> int \<Rightarrow> planner_error + plan" where
  "main_plan p tasks mp =
     (if tasks = [] then Inl NoTodoTasks
      else
        let graph = buildDependencyGraph tasks;
            waves = topologicalSort graph
        in generatePlan p graph waves mp)"

subsection \<open>What the claims speak of\<close>

definition dep_rel :: "graph \<Rightarrow> (string \<times> string) set" where
  "dep_rel g = {(x, d). \<exists>n. map_of g x = Some n \<and> d \<in> set (deps n)}"

definition waves_respect_deps :: "graph \<Rightarrow> string list list \<Rightarrow> bool" where
  "waves_respect_deps g waves =
     (\<forall>i < length waves. \<forall>x \<in> set (waves ! i). \<forall>d. (x, d) \<in> dep_rel g \<longrightarrow>
        (\<exists>j < i. d \<in> set (waves ! j)))"

definition deps_closed :: "graph \<Rightarrow> bool" where
  "deps_closed g = (\<forall>x d. (x, d) \<in> dep_rel g \<longrightarrow> d \<in> fst ` set g)"

text \<open>The state of the loop: what has been scheduled and what is left.\<close>

definition loop_inv :: "graph \<Rightarrow> string set \<Rightarrow> string list \<Rightarrow> string list list \<Rightarrow> bool" where
  "loop_inv g C R W \<longleftrightarrow>
     distinct R \<and> set R \<union> C = fst ` set g \<and> set R \<inter> C = {} \<and>
     C = set (concat W) \<and> distinct (concat W) \<and> waves_respect_deps g W"

definition core :: "node \<Rightarrow> TaskRecord \<times> string list \<times> int" where
  "core n = (task n, deps n, node_priority n)"

definition sched_view :: "node \<Rightarrow> string list \<times> int" where
  "sched_view n = (deps n, node_priority n)"

subsection \<open>Example task sets\<close>

definition mk_task :: "string \<Rightarrow> string option \<Rightarrow> int \<Rightarrow> TaskRecord" where
  "mk_task i d p = \<lparr>task_id = i, title = i, description = d, priority = p\<rparr>"

definition example_tasks :: "TaskRecord list" where
  "example_tasks =
     [mk_task ''T1'' None 1, mk_task ''T2'' None 0, mk_task ''T3'' (Some ''Depends on: [T1]'') 0]"

definition cyclic_tasks :: "TaskRecord list" where
  "cyclic_tasks =
     [mk_task ''A'' (Some ''depends on [B]'') 1, mk_task ''B'' (Some ''depends on [A]'') 0,
      mk_task ''C'' None 2, mk_task ''D'' (Some ''after [A]'') 0]"

definition priority_tasks :: "TaskRecord list" where
  "priority_tasks = [mk_task ''X'' None 2, mk_task ''Y'' None 0, mk_task ''Z'' None 1]"

definition dangling_tasks :: "TaskRecord list" where
  "dangling_tasks =
     [mk_task ''A'' (Some ''requires [Z9], after [B]'') 0, mk_task ''B'' None 1,
      mk_task ''C'' (Some ''blocked by: [nope]'') 2]"

definition dangling_node :: node where
  "dangling_node =
     \<lparr>task = mk_task ''C'' (Some ''blocked by: [nope]'') 2, deps = [], node_priority = 2,
      dependents = []\<rparr>"

definition without_dangling :: "TaskRecord \<Rightarrow> string option" where
  "without_dangling t = (if task_id t = ''A'' then Some ''after [B]'' else None)"

subsection \<open>Facts about the planner\<close>

lemma dep_rel_iff:
  "(x, d) \<in> dep_rel g \<longleftrightarrow> (case map_of g x of None \<Rightarrow> False | Some n \<Rightarrow> d \<in> set (deps n))"
  by (auto simp: dep_rel_def split: option.splits)

lemma acyclic_rank:
  fixes rank :: "string \<Rightarrow> nat"
  assumes "\<forall>(k, n) \<in> set g. \<forall>d \<in> set (deps n). rank d < rank k"
  shows "acyclic (dep_rel g)"
proof -
  have "(dep_rel g)\<inverse> \<subseteq> measure rank"
    using assms by (auto simp: dep_rel_def dest!: map_of_SomeD)
  then have "wf ((dep_rel g)\<inverse>)" by (rule wf_subset [OF wf_measure])
  then have "acyclic ((dep_rel g)\<inverse>)" by (rule wf_acyclic)
  then show ?thesis by simp
qed

lemma waves_respect_deps_snoc:
  assumes "waves_respect_deps g W"
    and "\<forall>x \<in> set w. \<forall>d. (x, d) \<in> dep_rel g \<longrightarrow> d \<in> set (concat W)"
  shows "waves_respect_deps g (W @ [w])"
  unfolding waves_respect_deps_def
proof (intro allI impI ballI)
  fix i x d
  assume i: "i < length (W @ [w])" and x: "x \<in> set ((W @ [w]) ! i)" and d: "(x, d) \<in> dep_rel g"
  show "\<exists>j<i. d \<in> set ((W @ [w]) ! j)"
  proof (cases "i < length W")
    case True
    from x True have "x \<in> set (W ! i)" by (simp add: nth_append)
    with assms(1) True d obtain j where "j < i" "d \<in> set (W ! j)"
      unfolding waves_respect_deps_def by blast
    with True show ?thesis by (auto simp: nth_append intro!: exI [of _ j])
  next
    case False
    with i have [simp]: "i = length W" by simp
    from x have "x \<in> set w" by simp
    with assms(2) d have "d \<in> set (concat W)" by blast
    then obtain w' where "w' \<in> set W" "d \<in> set w'" by auto
    then obtain j where "j < length W" "d \<in> set (W ! j)"
      by (metis in_set_conv_nth)
    then show ?thesis by (auto simp: nth_append intro!: exI [of _ j])
  qed
qed

lemma allDepsCompleted_iff:
  "allDepsCompleted g C x \<longleftrightarrow> x \<in> fst ` set g \<and> (\<forall>d. (x, d) \<in> dep_rel g \<longrightarrow> d \<in> C)"
  by (auto simp: allDepsCompleted_def dep_rel_def list_all_iff map_of_eq_None_iff
      split: option.splits dest: map_of_SomeD) (metis domI domIff map_of_eq_None_iff)+

lemma dep_rel_dom: "(x, d) \<in> dep_rel g \<Longrightarrow> x \<in> fst ` set g"
  by (auto simp: dep_rel_def dest!: map_of_SomeD intro: rev_image_eqI)

lemma finite_dep_rel: "finite (dep_rel g)"
proof -
  have "dep_rel g \<subseteq> fst ` set g \<times> (\<Union>(k, n) \<in> set g. set (deps n))"
    by (auto simp: dep_rel_def dest!: map_of_SomeD intro: rev_image_eqI) 
  then show ?thesis by (rule finite_subset) auto
qed

lemma acyclic_ready:
  assumes ac: "acyclic (dep_rel g)" and cl: "deps_closed g"
    and cov: "set R \<union> C = fst ` set g" and ne: "R \<noteq> []"
  shows "filter (allDepsCompleted g C) R \<noteq> []"
proof -
  have "wf ((dep_rel g)\<inverse>)"
    using ac finite_dep_rel [of g] by (simp add: finite_acyclic_wf_converse)
  moreover from ne obtain r where "r \<in> set R" by (cases R) auto
  ultimately obtain z where z: "z \<in> set R" and mn: "\<And>y. (y, z) \<in> (dep_rel g)\<inverse> \<Longrightarrow> y \<notin> set R"
    by (rule wfE_min) blast
  have "allDepsCompleted g C z"
    unfolding allDepsCompleted_iff
  proof (intro conjI allI impI)
    show "z \<in> fst ` set g" using z cov by blast
    fix d assume d: "(z, d) \<in> dep_rel g"
    then have "d \<notin> set R" using mn by simp
    moreover from d cl have "d \<in> fst ` set g" unfolding deps_closed_def by blast
    ultimately show "d \<in> C" using cov by blast
  qed
  with z show ?thesis by (auto simp: filter_empty_conv)
qed

lemma filter_ready_shrinks:
  assumes "filter P R \<noteq> []" and "set S = set (filter P R)"
  shows "length (filter (\<lambda>x. x \<notin> set S) R) < length R"
proof -
  from assms(1) obtain x where "x \<in> set (filter P R)"
    by (metis list.set_intros(1) neq_Nil_conv)
  with assms(2) have "x \<in> set R" "x \<in> set S" by auto
  then show ?thesis by (metis (mono_tags, lifting) length_filter_less)
qed

lemma loop_inv_step:
  assumes inv: "loop_inv g C R W"
    and S: "set S = set (filter (allDepsCompleted g C) R)" "distinct S"
  shows "loop_inv g (C \<union> set S) (filter (\<lambda>x. x \<notin> set S) R) (W @ [S])"
proof -
  have "waves_respect_deps g (W @ [S])"
  proof (rule waves_respect_deps_snoc)
    show "waves_respect_deps g W" using inv by (simp add: loop_inv_def)
    show "\<forall>x\<in>set S. \<forall>d. (x, d) \<in> dep_rel g \<longrightarrow> d \<in> set (concat W)"
      using inv S by (auto simp: loop_inv_def allDepsCompleted_iff)
  qed
  moreover have "set S \<subseteq> set R" using S by auto
  ultimately show ?thesis
    using inv S(2) unfolding loop_inv_def by auto
qed

lemma topo_loop_inv:
  "loop_inv g C R W \<Longrightarrow>
     case topo_loop g C R W of
       (W', None) \<Rightarrow> loop_inv g (fst ` set g) [] W'
     | (W', Some stuck) \<Rightarrow>
         stuck \<noteq> [] \<and> loop_inv g (fst ` set g - set stuck) stuck W' \<and>
         filter (allDepsCompleted g (fst ` set g - set stuck)) stuck = []"
proof (induction g C R W rule: topo_loop.induct)
  case (1 g C R W)
  show ?case
  proof (cases "R = []")
    case True
    with "1.prems" show ?thesis
      by (subst topo_loop.simps) (auto simp: loop_inv_def)
  next
    case False
    note ne = this
    show ?thesis
    proof (cases "filter (allDepsCompleted g C) R = []")
      case True
      from "1.prems" have "C = fst ` set g - set R" by (auto simp: loop_inv_def)
      with True ne "1.prems" show ?thesis
        by (subst topo_loop.simps) simp
    next
      case False
      let ?S = "sort_key (priority_of g) (filter (allDepsCompleted g C) R)"
      have "loop_inv g (C \<union> set ?S) (filter (\<lambda>x. x \<notin> set ?S) R) (W @ [?S])"
        using "1.prems" by (intro loop_inv_step) (auto simp: loop_inv_def)
      from "1.IH" [OF ne refl False refl this] ne False show ?thesis
        by (subst topo_loop.simps) (simp add: Let_def)
    qed
  qed
qed

lemma map_apsnd_update:
  "map (apsnd f) (AList.update k v g) = AList.update k (f v) (map (apsnd f) g)"
  by (induction g) auto

lemma map_of_apsnd: "map_of (map (apsnd f) g) k = map_option f (map_of g k)"
  by (induction g) auto

lemma core_add_dependent: "map (apsnd core) (add_dependent i d g) = map (apsnd core) g"
proof (cases "map_of g d")
  case None
  then show ?thesis by (simp add: add_dependent_def)
next
  case (Some n)
  have "map_of (map (apsnd core) g) d = Some (core n)"
    by (simp add: map_of_apsnd Some)
  then have "AList.update d (core n) (map (apsnd core) g) = map (apsnd core) g"
    by (rule update_triv)
  then show ?thesis
    by (simp add: add_dependent_def Some map_apsnd_update core_def)
qed

lemma core_fold_add_dependent:
  "map (apsnd core) (fold (add_dependent i) ds g) = map (apsnd core) g"
  by (induction ds arbitrary: g) (simp_all add: core_add_dependent)

lemma core_fold_entries:
  "map (apsnd core) (fold (\<lambda>(ident, n) g. fold (add_dependent ident) (deps n) g) es g)
     = map (apsnd core) g"
  by (induction es arbitrary: g) (auto simp: core_fold_add_dependent)

lemma core_fill_dependents: "map (apsnd core) (fill_dependents g) = map (apsnd core) g"
  by (simp add: fill_dependents_def core_fold_entries)

lemma keys_of_core: "map fst (map (apsnd f) g) = map fst g"
  by (induction g) auto

lemma fold_update_keys:
  "fst ` set (fold (\<lambda>t g. AList.update (task_id t) (h t) g) ts g0)
     = fst ` set g0 \<union> task_id ` set ts"
  by (induction ts arbitrary: g0) (auto simp: dom_update)

lemma fold_update_distinct:
  "distinct (map fst g0) \<Longrightarrow>
     distinct (map fst (fold (\<lambda>t g. AList.update (task_id t) (h t) g) ts g0))"
  by (induction ts arbitrary: g0) (auto simp: distinct_update)

lemma fold_update_values:
  "map_of (fold (\<lambda>t g. AList.update (task_id t) (h t) g) ts g0) k = Some n \<Longrightarrow>
     map_of g0 k = Some n \<or> (\<exists>t \<in> set ts. task_id t = k \<and> n = h t)"
proof (induction ts arbitrary: g0)
  case Nil
  then show ?case by simp
next
  case (Cons t ts)
  from Cons.IH [of "AList.update (task_id t) (h t) g0"] Cons.prems
  show ?case by (auto simp: update_conv' split: if_splits)
qed

lemma graph_keys: "fst ` set (buildDependencyGraph tasks) = task_id ` set tasks"
proof -
  have "map fst (buildDependencyGraph tasks) = map fst (build_nodes tasks)"
    using core_fill_dependents [of "build_nodes tasks"]
    by (metis buildDependencyGraph_def keys_of_core)
  then have "fst ` set (buildDependencyGraph tasks) = fst ` set (build_nodes tasks)"
    by (metis set_map)
  then show ?thesis by (simp add: build_nodes_def fold_update_keys)
qed

lemma graph_distinct: "distinct (map fst (buildDependencyGraph tasks))"
proof -
  have "map fst (buildDependencyGraph tasks) = map fst (build_nodes tasks)"
    using core_fill_dependents [of "build_nodes tasks"]
    by (metis buildDependencyGraph_def keys_of_core)
  then show ?thesis by (simp add: build_nodes_def fold_update_distinct)
qed

lemma graph_node:
  assumes "map_of (buildDependencyGraph tasks) k = Some n"
  shows "\<exists>t \<in> set tasks. task_id t = k \<and> task n = t \<and> node_priority n = priority t \<and>
           deps n = filter (\<lambda>d. d \<in> task_id ` set tasks) (parseDependencies (description t))"
proof -
  have "map_option core (map_of (buildDependencyGraph tasks) k)
          = map_option core (map_of (build_nodes tasks) k)"
    using core_fill_dependents [of "build_nodes tasks"]
    by (metis buildDependencyGraph_def map_of_apsnd)
  with assms have "map_option core (map_of (build_nodes tasks) k) = Some (core n)"
    by simp
  then obtain m where m: "map_of (build_nodes tasks) k = Some m" and c: "core m = core n"
    by (cases "map_of (build_nodes tasks) k") auto
  from m obtain t where "t \<in> set tasks" "task_id t = k" "m = make_node (task_id ` set tasks) t"
    unfolding build_nodes_def by (auto dest!: fold_update_values)
  with c show ?thesis by (auto simp: core_def make_node_def)
qed

lemma graph_deps_closed: "deps_closed (buildDependencyGraph tasks)"
  unfolding deps_closed_def dep_rel_def
  by (auto simp: graph_keys dest!: graph_node)

lemma loop_inv_init: "distinct (map fst g) \<Longrightarrow> loop_inv g {} (map fst g) []"
  by (simp add: loop_inv_def waves_respect_deps_def)

lemma waves_respect_deps_trancl:
  assumes w: "waves_respect_deps g W" and r: "(x, y) \<in> (dep_rel g)\<^sup>+"
  shows "i < length W \<Longrightarrow> x \<in> set (W ! i) \<Longrightarrow> \<exists>j < i. y \<in> set (W ! j)"
  using r
proof (induction arbitrary: i rule: trancl_induct)
  case (base y)
  with w show ?case unfolding waves_respect_deps_def by blast
next
  case (step y z)
  from step.IH [OF step.prems] obtain j where j: "j < i" "y \<in> set (W ! j)" by blast
  with step.prems have "j < length W" by simp
  with w j step.hyps(2) obtain l where "l < j" "z \<in> set (W ! l)"
    unfolding waves_respect_deps_def by blast
  with j show ?case by (auto intro!: exI [of _ l])
qed

lemma cycle_not_scheduled:
  assumes w: "waves_respect_deps g W" and r: "(x, x) \<in> (dep_rel g)\<^sup>+"
  shows "x \<notin> set (concat W)"
proof
  assume "x \<in> set (concat W)"
  then obtain w' where "w' \<in> set W" "x \<in> set w'" by auto
  then obtain i where i: "i < length W" "x \<in> set (W ! i)"
    by (metis in_set_conv_nth)
  have "i < length W \<Longrightarrow> x \<in> set (W ! i) \<Longrightarrow> False" for i
  proof (induction i rule: less_induct)
    case (less i)
    from waves_respect_deps_trancl [OF w r less.prems] obtain j where "j < i" "x \<in> set (W ! j)"
      by blast
    with less show ?case by (meson less_trans)
  qed
  with i show False by blast
qed

lemma topo_report_cases:
  assumes "distinct (map fst g)"
  shows "case topologicalSort_report g of
       (W', None) \<Rightarrow> loop_inv g (fst ` set g) [] W'
     | (W', Some stuck) \<Rightarrow>
         stuck \<noteq> [] \<and> loop_inv g (fst ` set g - set stuck) stuck W' \<and>
         filter (allDepsCompleted g (fst ` set g - set stuck)) stuck = []"
  unfolding topologicalSort_report_def
  by (rule topo_loop_inv) (rule loop_inv_init [OF assms])

lemma topo_acyclic_complete:
  assumes d: "distinct (map fst g)" and cl: "deps_closed g" and ac: "acyclic (dep_rel g)"
  shows "snd (topologicalSort_report g) = None"
proof (rule ccontr)
  assume "snd (topologicalSort_report g) \<noteq> None"
  then obtain W' stuck where eq: "topologicalSort_report g = (W', Some stuck)"
    by (cases "topologicalSort_report g") auto
  with topo_report_cases [OF d]
  have s: "stuck \<noteq> []" and inv: "loop_inv g (fst ` set g - set stuck) stuck W'"
    and f: "filter (allDepsCompleted g (fst ` set g - set stuck)) stuck = []"
    by auto
  from inv have "set stuck \<union> (fst ` set g - set stuck) = fst ` set g"
    by (auto simp: loop_inv_def)
  from acyclic_ready [OF ac cl this s] f show False by simp
qed

lemma topo_loop_sorted:
  "\<forall>w \<in> set W. sorted (map (priority_of g) w) \<Longrightarrow>
     \<forall>w \<in> set (fst (topo_loop g C R W)). sorted (map (priority_of g) w)"
proof (induction g C R W rule: topo_loop.induct)
  case (1 g C R W)
  show ?case
  proof (cases "R = [] \<or> filter (allDepsCompleted g C) R = []")
    case True
    with "1.prems" show ?thesis by (subst topo_loop.simps) auto
  next
    case False
    let ?S = "sort_key (priority_of g) (filter (allDepsCompleted g C) R)"
    from False have a: "R \<noteq> []" and b: "filter (allDepsCompleted g C) R \<noteq> []" by auto
    have "\<forall>w \<in> set (W @ [?S]). sorted (map (priority_of g) w)"
      using "1.prems" by auto
    from "1.IH" [OF a refl b refl this] a b show ?thesis
      by (subst topo_loop.simps) (simp add: Let_def)
  qed
qed

lemma topo_loop_extends: "\<exists>rest. fst (topo_loop g C R W) = W @ rest"
proof (induction g C R W rule: topo_loop.induct)
  case (1 g C R W)
  show ?case
  proof (cases "R = [] \<or> filter (allDepsCompleted g C) R = []")
    case True
    then show ?thesis by (subst topo_loop.simps) auto
  next
    case False
    then have a: "R \<noteq> []" and b: "filter (allDepsCompleted g C) R \<noteq> []" by auto
    from "1.IH" [OF a refl b refl] a b show ?thesis
      by (subst topo_loop.simps) (auto simp: Let_def)
  qed
qed

lemma first_wave:
  assumes "filter (allDepsCompleted g {}) (map fst g) \<noteq> []"
  shows "\<exists>rest. topologicalSort g
     = sort_key (priority_of g) (filter (allDepsCompleted g {}) (map fst g)) # rest"
proof -
  let ?S = "sort_key (priority_of g) (filter (allDepsCompleted g {}) (map fst g))"
  from assms have ne: "map fst g \<noteq> []" by auto
  obtain rest where
    "fst (topo_loop g ({} \<union> set ?S) (filter (\<lambda>x. x \<notin> set ?S) (map fst g)) ([] @ [?S]))
       = ([] @ [?S]) @ rest"
    using topo_loop_extends by blast
  then show ?thesis
    unfolding topologicalSort_def topologicalSort_report_def
    using assms ne by (subst topo_loop.simps) (simp add: Let_def)
qed

lemma no_deps_in_wave0:
  assumes "(k, n) \<in> set g" and "distinct (map fst g)" and "deps n = []"
  shows "topologicalSort g \<noteq> [] \<and> k \<in> set (topologicalSort g ! 0)"
proof -
  from assms have "map_of g k = Some n" by simp
  with assms(3) have "allDepsCompleted g {} k" by (simp add: allDepsCompleted_def)
  moreover from assms(1) have "k \<in> set (map fst g)" by force
  ultimately have k: "k \<in> set (sort_key (priority_of g) (filter (allDepsCompleted g {}) (map fst g)))"
    by simp
  then have "filter (allDepsCompleted g {}) (map fst g) \<noteq> []"
    by (metis empty_iff list.set(1) set_sort)
  from first_wave [OF this] obtain rest where
    "topologicalSort g = sort_key (priority_of g) (filter (allDepsCompleted g {}) (map fst g)) # rest"
    by blast
  with k show ?thesis by simp
qed

lemma topo_loop_cong:
  assumes "allDepsCompleted g = allDepsCompleted g'" and "priority_of g = priority_of g'"
  shows "topo_loop g C R W = topo_loop g' C R W"
  using assms
proof (induction g C R W rule: topo_loop.induct)
  case (1 g C R W)
  show ?case
  proof (cases "R = [] \<or> filter (allDepsCompleted g C) R = []")
    case True
    with "1.prems" show ?thesis
      by (subst topo_loop.simps, subst (2) topo_loop.simps) auto
  next
    case False
    then have a: "R \<noteq> []" and b: "filter (allDepsCompleted g C) R \<noteq> []" by auto
    from "1.IH" [OF a refl b refl "1.prems"] a b "1.prems" show ?thesis
      by (subst topo_loop.simps, subst (2) topo_loop.simps) (simp add: Let_def)
  qed
qed

lemma sched_view_cong:
  assumes "map (apsnd sched_view) g = map (apsnd sched_view) g'"
  shows "topologicalSort_report g = topologicalSort_report g'"
proof -
  have k: "map fst g = map fst g'"
    using assms by (metis keys_of_core)
  have m: "map_option sched_view (map_of g x) = map_option sched_view (map_of g' x)" for x
    using assms by (metis map_of_apsnd)
  have "allDepsCompleted g C x = allDepsCompleted g' C x" for C x
    using m [of x] by (auto simp: allDepsCompleted_def sched_view_def split: option.splits)
  then have a: "allDepsCompleted g = allDepsCompleted g'" by (intro ext)
  have "priority_of g x = priority_of g' x" for x
    using m [of x] by (auto simp: priority_of_def sched_view_def split: option.splits)
  then have b: "priority_of g = priority_of g'" by (intro ext)
  show ?thesis
    unfolding topologicalSort_report_def k by (rule topo_loop_cong [OF a b])
qed

lemma fold_update_view:
  "map (apsnd f) (fold (\<lambda>t. AList.update (task_id t) (h t)) ts g0)
      = fold (\<lambda>t. AList.update (task_id t) (f (h t))) ts (map (apsnd f) g0)"
  by (induction ts arbitrary: g0) (simp_all add: map_apsnd_update)

lemma sched_view_build:
  "map (apsnd sched_view) (buildDependencyGraph tasks)
     = fold (\<lambda>t. AList.update (task_id t) (sched_view (make_node (task_id ` set tasks) t))) tasks []"
proof -
  have sv: "map (apsnd sched_view) g = map (apsnd snd) (map (apsnd core) g)" for g
    by (induction g) (auto simp: sched_view_def core_def)
  have "map (apsnd sched_view) (buildDependencyGraph tasks)
      = map (apsnd sched_view) (build_nodes tasks)"
    unfolding sv by (simp only: buildDependencyGraph_def core_fill_dependents)
  also have "\<dots>
      = fold (\<lambda>t. AList.update (task_id t) (sched_view (make_node (task_id ` set tasks) t))) tasks []"
    by (simp add: build_nodes_def fold_update_view)
  finally show ?thesis .
qed

lemma same_refs_same_schedule:
  assumes "\<forall>t \<in> set tasks.
      filter (\<lambda>d. d \<in> task_id ` set tasks) (parseDependencies (desc' t))
      = filter (\<lambda>d. d \<in> task_id ` set tasks) (parseDependencies (description t))"
  shows "topologicalSort_report (buildDependencyGraph (map (\<lambda>t. t\<lparr>description := desc' t\<rparr>) tasks))
     = topologicalSort_report (buildDependencyGraph tasks)"
proof (rule sched_view_cong)
  let ?tasks' = "map (\<lambda>t. t\<lparr>description := desc' t\<rparr>) tasks"
  have ids: "task_id ` set ?tasks' = task_id ` set tasks" by (auto simp: image_iff)
  show "map (apsnd sched_view) (buildDependencyGraph ?tasks')
      = map (apsnd sched_view) (buildDependencyGraph tasks)"
    unfolding sched_view_build ids fold_map
    by (rule fold_cong) (use assms in \<open>auto simp: sched_view_def make_node_def\<close>)
qed

lemma plan_tasks_ids:
  "set ids \<subseteq> fst ` set g \<Longrightarrow>
     \<exists>ts. those (map (plan_task_of g) ids) = Some ts \<and> map pt_id ts = ids"
proof (induction ids)
  case Nil
  then show ?case by simp
next
  case (Cons a ids)
  then obtain ts where ts: "those (map (plan_task_of g) ids) = Some ts" "map pt_id ts = ids"
    by auto
  from Cons.prems have "a \<in> fst ` set g" by simp
  then have "map_of g a \<noteq> None" by (simp add: map_of_eq_None_iff)
  then obtain pt where "plan_task_of g a = Some pt" "pt_id pt = a"
    by (auto simp: plan_task_of_def)
  with ts show ?case by simp
qed

lemma plan_waves_ids:
  "\<forall>w \<in> set ws. set w \<subseteq> fst ` set g \<Longrightarrow>
     \<exists>pws. plan_waves_from g mp i ws = Some pws \<and> map (\<lambda>w. map pt_id (wave_tasks w)) pws = ws"
proof (induction ws arbitrary: i)
  case Nil
  then show ?case by simp
next
  case (Cons w ws)
  from Cons.prems have "\<forall>w \<in> set ws. set w \<subseteq> fst ` set g" by simp
  from Cons.IH [OF this, of "Suc i"]
  obtain pws where pws: "plan_waves_from g mp (Suc i) ws = Some pws"
      "map (\<lambda>w. map pt_id (wave_tasks w)) pws = ws"
    by blast
  from Cons.prems have "set w \<subseteq> fst ` set g" by simp
  from plan_tasks_ids [OF this]
  obtain ts where "those (map (plan_task_of g) w) = Some ts" "map pt_id ts = w"
    by blast
  with pws show ?case by simp
qed

lemma waves_within_graph:
  assumes "distinct (map fst g)"
  shows "set (concat (topologicalSort g)) \<subseteq> fst ` set g"
proof -
  obtain W' r where eq: "topologicalSort_report g = (W', r)"
    by (cases "topologicalSort_report g")
  then have W': "topologicalSort g = W'" by (simp add: topologicalSort_def)
  from topo_report_cases [OF assms] eq have "\<exists>C R. loop_inv g C R W'"
    by (cases r) auto
  then show ?thesis unfolding W' by (auto simp: loop_inv_def)
qed

lemma main_plan_waves:
  assumes "tasks \<noteq> []"
  shows "\<exists>pl. main_plan p tasks mp = Inr pl \<and>
     map (\<lambda>w. map pt_id (wave_tasks w)) (plan_waves pl) = topologicalSort (buildDependencyGraph tasks)"
proof -
  let ?g = "buildDependencyGraph tasks"
  have "\<forall>w \<in> set (topologicalSort ?g). set w \<subseteq> fst ` set ?g"
    using waves_within_graph [OF graph_distinct, of tasks] by auto
  from plan_waves_ids [OF this, of mp 0] assms show ?thesis
    by (auto simp: main_plan_def generatePlan_def Let_def)
qed

subsection \<open>Properties of the planner\<close>

text \<open>
  Claim C2 (topological correctness). When the dependency graph built from the tasks is
  acyclic, every id of wave \<open>i\<close> has each of its \<open>deps\<close> in a wave of smaller index, the
  waves taken together hold every key of the graph, none of them twice, and the loop
  ends without reporting a cycle.
\<close>

theorem topological_waves_correct:
  assumes "acyclic (dep_rel (buildDependencyGraph tasks))"
  shows "waves_respect_deps (buildDependencyGraph tasks)
           (topologicalSort (buildDependencyGraph tasks))
    \<and> distinct (concat (topologicalSort (buildDependencyGraph tasks)))
    \<and> set (concat (topologicalSort (buildDependencyGraph tasks)))
        = fst ` set (buildDependencyGraph tasks)
    \<and> snd (topologicalSort_report (buildDependencyGraph tasks)) = None"
proof -
  let ?g = "buildDependencyGraph tasks"
  have n: "snd (topologicalSort_report ?g) = None"
    by (rule topo_acyclic_complete [OF graph_distinct graph_deps_closed assms])
  then have "topologicalSort_report ?g = (topologicalSort ?g, None)"
    by (simp add: topologicalSort_def prod_eq_iff)
  with topo_report_cases [OF graph_distinct, of tasks]
  have "loop_inv ?g (fst ` set ?g) [] (topologicalSort ?g)" by simp
  with n show ?thesis by (auto simp: loop_inv_def)
qed

text \<open>
  The example of the specification: \<open>T1\<close> (priority 1), \<open>T2\<close> (priority 0) and \<open>T3\<close>
  (priority 0, depending on \<open>T1\<close>) are planned as \<open>[[T2, T1], [T3]]\<close>.
\<close>

theorem topological_waves_correct_witness:
  "acyclic (dep_rel (buildDependencyGraph example_tasks))
   \<and> topologicalSort (buildDependencyGraph example_tasks) = [[''T2'', ''T1''], [''T3'']]
   \<and> waves_respect_deps (buildDependencyGraph example_tasks) [[''T2'', ''T1''], [''T3'']]
   \<and> set (concat [[''T2'', ''T1''], [''T3'']]) = fst ` set (buildDependencyGraph example_tasks)"
proof -
  have "\<forall>(k, n) \<in> set (buildDependencyGraph example_tasks). \<forall>d \<in> set (deps n).
      (if d = ''T3'' then 1 else (0::nat)) < (if k = ''T3'' then 1 else 0)"
    by code_simp
  then have ac: "acyclic (dep_rel (buildDependencyGraph example_tasks))"
    by (rule acyclic_rank)
  have ts: "topologicalSort (buildDependencyGraph example_tasks) = [[''T2'', ''T1''], [''T3'']]"
    by code_simp
  from topological_waves_correct [OF ac] ac ts show ?thesis by simp
qed

text \<open>
  Claim C4 (cycle detection). When a task \<open>x\<close> lies on a dependency cycle, the loop
  terminates (\<open>topo_loop\<close> is a total function) in its "Circular dependency detected!"
  branch; the ids it reports are exactly the keys of the graph that no wave holds, \<open>x\<close> is
  among them and in no wave, and the plan that \<open>main\<close> goes on to generate lists the ids
  of the waves and no other.
\<close>

theorem cycle_reported_not_scheduled:
  assumes "(x, x) \<in> (dep_rel (buildDependencyGraph tasks))\<^sup>+"
  shows "\<exists>stuck pl.
           topologicalSort_report (buildDependencyGraph tasks)
             = (topologicalSort (buildDependencyGraph tasks), Some stuck)
           \<and> x \<in> set stuck
           \<and> set stuck = fst ` set (buildDependencyGraph tasks)
                 - set (concat (topologicalSort (buildDependencyGraph tasks)))
           \<and> x \<notin> set (concat (topologicalSort (buildDependencyGraph tasks)))
           \<and> main_plan p tasks mp = Inr pl
           \<and> map (\<lambda>w. map pt_id (wave_tasks w)) (plan_waves pl)
               = topologicalSort (buildDependencyGraph tasks)"
proof -
  let ?g = "buildDependencyGraph tasks"
  from assms have "\<exists>d. (x, d) \<in> dep_rel ?g" by (meson tranclD)
  then have xk: "x \<in> fst ` set ?g" by (auto dest: dep_rel_dom)
  then have "tasks \<noteq> []" by (auto simp: graph_keys)
  from main_plan_waves [OF this, of p mp] obtain pl where
    pl: "main_plan p tasks mp = Inr pl"
      "map (\<lambda>w. map pt_id (wave_tasks w)) (plan_waves pl) = topologicalSort ?g"
    by blast
  obtain W' r where eq: "topologicalSort_report ?g = (W', r)"
    by (cases "topologicalSort_report ?g")
  then have W': "topologicalSort ?g = W'" by (simp add: topologicalSort_def)
  show ?thesis
  proof (cases r)
    case None
    with eq topo_report_cases [OF graph_distinct, of tasks]
    have inv: "loop_inv ?g (fst ` set ?g) [] W'" by simp
    then have "waves_respect_deps ?g W'" by (simp add: loop_inv_def)
    then have "x \<notin> set (concat W')" by (rule cycle_not_scheduled [OF _ assms])
    moreover from inv have "fst ` set ?g = set (concat W')" by (simp add: loop_inv_def)
    ultimately show ?thesis using xk by blast
  next
    case (Some stuck)
    with eq topo_report_cases [OF graph_distinct, of tasks]
    have inv: "loop_inv ?g (fst ` set ?g - set stuck) stuck W'" by simp
    then have "waves_respect_deps ?g W'" by (simp add: loop_inv_def)
    then have nx: "x \<notin> set (concat W')" by (rule cycle_not_scheduled [OF _ assms])
    from inv have "set stuck = fst ` set ?g - set (concat W')"
      by (auto simp: loop_inv_def)
    with nx xk eq Some W' pl show ?thesis by auto
  qed
qed

text \<open>
  \<open>A\<close> and \<open>B\<close> depend on each other, \<open>D\<close> comes after \<open>A\<close>, \<open>C\<close> is free: only \<open>C\<close> is
  planned, and \<open>A\<close>, \<open>B\<close>, \<open>D\<close> are reported.
\<close>

theorem cycle_reported_not_scheduled_witness:
  "(''A'', ''A'') \<in> (dep_rel (buildDependencyGraph cyclic_tasks))\<^sup>+
   \<and> topologicalSort_report (buildDependencyGraph cyclic_tasks)
       = ([[''C'']], Some [''A'', ''B'', ''D''])
   \<and> ''A'' \<notin> set (concat (topologicalSort (buildDependencyGraph cyclic_tasks)))
   \<and> (\<exists>pl. main_plan \<lparr>project_id = ''p'', project_name = ''n'', project_path = ''/''\<rparr>
               cyclic_tasks 3 = Inr pl
         \<and> map (\<lambda>w. map pt_id (wave_tasks w)) (plan_waves pl) = [[''C'']])"
proof -
  have ab: "(''A'', ''B'') \<in> dep_rel (buildDependencyGraph cyclic_tasks)"
    unfolding dep_rel_iff by code_simp
  have ba: "(''B'', ''A'') \<in> dep_rel (buildDependencyGraph cyclic_tasks)"
    unfolding dep_rel_iff by code_simp
  from ab ba have cyc: "(''A'', ''A'') \<in> (dep_rel (buildDependencyGraph cyclic_tasks))\<^sup>+"
    by (rule trancl_into_trancl2 [OF _ r_into_trancl])
  have rep: "topologicalSort_report (buildDependencyGraph cyclic_tasks)
      = ([[''C'']], Some [''A'', ''B'', ''D''])"
    by code_simp
  then have ts: "topologicalSort (buildDependencyGraph cyclic_tasks) = [[''C'']]"
    by (simp add: topologicalSort_def)
  from cycle_reported_not_scheduled [OF cyc,
      of "\<lparr>project_id = ''p'', project_name = ''n'', project_path = ''/''\<rparr>" 3]
  show ?thesis using cyc rep unfolding ts by auto
qed

text \<open>
  Claim C5 (priority ordering). Every wave returned by \<open>topologicalSort\<close> lists its ids by
  ascending priority of their graph nodes.
\<close>

theorem waves_sorted_by_priority:
  "\<forall>w \<in> set (topologicalSort g). sorted (map (priority_of g) w)"
  unfolding topologicalSort_def topologicalSort_report_def
  by (rule topo_loop_sorted) simp

text \<open>
  The example of the claim: \<open>X\<close> (priority 2), \<open>Y\<close> (priority 0), \<open>Z\<close> (priority 1) form one
  wave, returned as \<open>[Y, Z, X]\<close>.
\<close>

theorem waves_sorted_by_priority_witness:
  "topologicalSort (buildDependencyGraph priority_tasks) = [[''Y'', ''Z'', ''X'']]
   \<and> map (priority_of (buildDependencyGraph priority_tasks)) [''Y'', ''Z'', ''X''] = [0, 1, 2]
   \<and> sorted (map (priority_of (buildDependencyGraph priority_tasks)) [''Y'', ''Z'', ''X''])"
proof -
  have ts: "topologicalSort (buildDependencyGraph priority_tasks) = [[''Y'', ''Z'', ''X'']]"
    by code_simp
  have pr: "map (priority_of (buildDependencyGraph priority_tasks)) [''Y'', ''Z'', ''X''] = [0, 1, 2]"
    by code_simp
  from waves_sorted_by_priority [of "buildDependencyGraph priority_tasks"] ts
  have "sorted (map (priority_of (buildDependencyGraph priority_tasks)) [''Y'', ''Z'', ''X''])"
    by simp
  with ts pr show ?thesis by simp
qed

text \<open>
  Claim C7 (dangling references). The \<open>deps\<close> of a node are the ids its task's description
  refers to, less those that are no id of the task set. A description enters the plan
  through these kept references only: replacing every description by one with the same
  kept references leaves the waves and the report unchanged. A node whose description
  refers to no id of the task set stands in wave 0.
\<close>

theorem dangling_references_dropped:
  assumes "(k, n) \<in> set (buildDependencyGraph tasks)"
    and "\<forall>t \<in> set tasks.
      filter (\<lambda>d. d \<in> task_id ` set tasks) (parseDependencies (desc' t))
      = filter (\<lambda>d. d \<in> task_id ` set tasks) (parseDependencies (description t))"
  shows "deps n = filter (\<lambda>d. d \<in> task_id ` set tasks)
                    (parseDependencies (description (task n)))
    \<and> topologicalSort_report
          (buildDependencyGraph (map (\<lambda>t. t\<lparr>description := desc' t\<rparr>) tasks))
        = topologicalSort_report (buildDependencyGraph tasks)
    \<and> (set (parseDependencies (description (task n))) \<inter> task_id ` set tasks = {} \<longrightarrow>
          topologicalSort (buildDependencyGraph tasks) \<noteq> []
          \<and> k \<in> set (topologicalSort (buildDependencyGraph tasks) ! 0))"
proof -
  let ?g = "buildDependencyGraph tasks"
  from assms(1) have "map_of ?g k = Some n"
    by (simp add: graph_distinct)
  from graph_node [OF this] have d: "deps n = filter (\<lambda>d. d \<in> task_id ` set tasks)
                    (parseDependencies (description (task n)))"
    by auto
  have "deps n = []" if "set (parseDependencies (description (task n))) \<inter> task_id ` set tasks = {}"
    unfolding d using that by (auto simp: filter_empty_conv)
  then have "set (parseDependencies (description (task n))) \<inter> task_id ` set tasks = {} \<longrightarrow>
          topologicalSort ?g \<noteq> [] \<and> k \<in> set (topologicalSort ?g ! 0)"
    using no_deps_in_wave0 [OF assms(1) graph_distinct] by blast
  with d same_refs_same_schedule [OF assms(2)] show ?thesis by blast
qed

text \<open>
  \<open>C\<close> is "blocked by: [nope]" and no task is called \<open>nope\<close>: its node has no \<open>deps\<close> and it
  is planned in wave 0, and the plan is that of the task set with the dangling
  references \<open>Z9\<close> and \<open>nope\<close> erased from the descriptions.
\<close>

theorem dangling_references_dropped_witness:
  "(''C'', dangling_node) \<in> set (buildDependencyGraph dangling_tasks)
   \<and> parseDependencies (description (task dangling_node)) = [''nope'']
   \<and> deps dangling_node = []
   \<and> topologicalSort_report
        (buildDependencyGraph (map (\<lambda>t. t\<lparr>description := without_dangling t\<rparr>) dangling_tasks))
      = topologicalSort_report (buildDependencyGraph dangling_tasks)
   \<and> topologicalSort (buildDependencyGraph dangling_tasks) = [[''B'', ''C''], [''A'']]
   \<and> ''C'' \<in> set (topologicalSort (buildDependencyGraph dangling_tasks) ! 0)"
proof -
  have m: "(''C'', dangling_node) \<in> set (buildDependencyGraph dangling_tasks)"
    by code_simp
  have r: "\<forall>t \<in> set dangling_tasks.
      filter (\<lambda>d. d \<in> task_id ` set dangling_tasks) (parseDependencies (without_dangling t))
      = filter (\<lambda>d. d \<in> task_id ` set dangling_tasks) (parseDependencies (description t))"
    by code_simp
  have p: "parseDependencies (description (task dangling_node)) = [''nope'']"
    by code_simp
  have i: "set (parseDependencies (description (task dangling_node)))
      \<inter> task_id ` set dangling_tasks = {}"
    by code_simp
  have ts: "topologicalSort (buildDependencyGraph dangling_tasks) = [[''B'', ''C''], [''A'']]"
    by code_simp
  from dangling_references_dropped [OF m r] i m p ts show ?thesis
    by (simp add: dangling_node_def)
qed

section \<open>The batch runner (batch-llm-runner.js, shared.js)\<close>

subsection \<open>Records of the runner\<close>

record WorkItem =
  item_id :: string
  item_data :: string

text \<open>
  What \<open>handleResult\<close> resolves to. \<open>TaskHandlers\<close> declares an object with a \<open>status\<close> and
  any other properties, among them possibly an \<open>id\<close> of its own; nothing at run time holds
  a handler to that, so the value may also be \<open>null\<close> or \<open>undefined\<close>, and an object may
  lack the \<open>status\<close>.
\<close>

record HandlerResult =
  own_id :: "string option"
  status :: "string option"
  res_fields :: "(string \<times> string option) list"

datatype handler_value = Null | Undefined | Object HandlerResult

record ResultRecord =
  rec_id :: string
  rec_status :: "string option"
  rec_fields :: "(string \<times> string option) list"

text \<open>
  What a handler throws, or rejects with: \<open>null\<close> or \<open>undefined\<close>, or a value of which the
  \<open>catch\<close> block reads the \<open>message\<close>: the text of an \<open>Error\<close>, or nothing.
\<close>

datatype thrown = Nullish | Thrown "string option"

record llm_result =
  success :: bool
  output_text :: string
  sessionId :: "string option"
  error :: "string option"

text \<open>
  The checkpoint as it is written to and parsed from the progress file (\<open>startedAt\<close>, a
  time stamp nothing reads, is left out).
\<close>

record Progress =
  p_status :: string
  p_items :: "WorkItem list"
  p_completed :: "string list"
  p_results :: "ResultRecord list"

subsection \<open>The external command\<close>

text \<open>
  What the spawned \<open>codeagent-wrapper\<close> does, as far as \<open>runCodeagent\<close> sees it: the
  text received on its standard output and the chunks received on its error stream
  before the first of the three events that settle the promise (the \<open>resolved\<close> flag
  makes every later event a no-op), and that event: the timer, \<open>close\<close> with an exit code
  (\<open>null\<close> when a signal ended the process), or \<open>error\<close> with a message. Besides,
  \<open>stdin_error\<close> says that the write of the prompt to the standard input of the command
  fails, as it does with \<open>EPIPE\<close> when the command exits, is killed or closes the pipe
  before it has read the prompt.
\<close>

datatype child_end = TimerFired | Closed "nat option" | Errored string

record child_run =
  stdout :: string
  stderr_chunks :: "string list"
  ending :: child_end
  stdin_error :: bool

definition trim :: "string \<Rightarrow> string" where
  "trim s = rev (dropWhile is_space (rev (dropWhile is_space s)))"

definition is_session_char :: "char \<Rightarrow> bool" where
  \<comment> \<open>the class \<open>[a-f0-9-]\<close> under the \<open>i\<close> flag\<close>
  "is_session_char c = (c \<in> set (''abcdef'' @ ''ABCDEF'' @ digits @ ''-''))"

definition match_session_here :: "string \<Rightarrow> string option" where
  \<comment> \<open>\<^verbatim>\<open>/SESSION_ID:\s*([a-f0-9-]+)/i\<close> at the head of the text\<close>
  "match_session_here s =
     (case match_lit ''SESSION_ID:'' s of
        None \<Rightarrow> None
      | Some r \<Rightarrow> map_option fst (match_plus is_session_char (dropWhile is_space r)))"

fun find_session :: "string \<Rightarrow> string option" where
  "find_session [] = match_session_here []"
| "find_session (c # cs) =
     (case match_session_here (c # cs) of
        Some m \<Rightarrow> Some m
      | None \<Rightarrow> find_session cs)"

definition digit_char :: "nat \<Rightarrow> char" where
  "digit_char d = digits ! d"

fun string_of_nat :: "nat \<Rightarrow> string" where
  "string_of_nat n =
     (if n < 10 then [digit_char n] else string_of_nat (n div 10) @ [digit_char (n mod 10)])"

definition string_of_code :: "nat option \<Rightarrow> string" where
  \<comment> \<open>the exit code inside a template literal\<close>
  "string_of_code code = (case code of None \<Rightarrow> ''null'' | Some n \<Rightarrow> string_of_nat n)"

text \<open>
  \<open>runCodeagent\<close> puts no \<open>error\<close> listener on \<open>child.stdin\<close>, so a failed write of the prompt
  is an \<open>error\<close> event that nothing handles: Node throws it as an uncaught exception and the
  process of the runner ends. \<open>close\<close> is emitted only after the streams of the command
  have closed, so in a run that would end by \<open>close\<close> the process ends first and the
  promise is never settled: that is the value \<open>None\<close>. The timer or an \<open>error\<close> event of
  the command may settle the promise before the write fails (the prompt waits in the pipe
  until the command is killed); then the promise is settled as if nothing had happened,
  and the process ends when the write fails (\<open>fatal\<close> below). The promise resolves, never
  rejects, to the object built from the event that settles it.
\<close>

definition runCodeagent :: "child_run \<Rightarrow> llm_result option" where
  "runCodeagent ch =
     (let sid = fold (\<lambda>chunk sid. case find_session chunk of Some m \<Rightarrow> Some m | None \<Rightarrow> sid)
                  (stderr_chunks ch) None
      in case ending ch of
           TimerFired \<Rightarrow>
             Some \<lparr>success = False, output_text = stdout ch, sessionId = sid,
                   error = Some ''timeout''\<rparr>
         | Closed code \<Rightarrow>
             if stdin_error ch then None
             else if code = Some 0 \<and> trim (stdout ch) \<noteq> []
             then Some \<lparr>success = True, output_text = trim (stdout ch), sessionId = sid,
                        error = None\<rparr>
             else Some \<lparr>success = False, output_text = trim (stdout ch), sessionId = sid,
                         error = Some (if code = Some 0 then ''empty output''
                                       else ''exit code '' @ string_of_code code)\<rparr>
         | Errored msg \<Rightarrow>
             Some \<lparr>success = False, output_text = [], sessionId = sid, error = Some msg\<rparr>)"

subsection \<open>Handlers and the outcome of one item\<close>

text \<open>
  The caller's handlers, as functions of their arguments: \<open>scan\<close> resolves to an array of
  items or throws (as does the next line of \<open>run\<close>, which reads \<open>allItems.length\<close>, when
  \<open>scan\<close> resolves to \<open>null\<close> or \<open>undefined\<close>), \<open>buildPrompt\<close> gives a string or throws,
  \<open>handleResult\<close> resolves to a value or throws. The world outside is the behaviour of the
  command spawned for an item with a prompt. The lines written to the log file and the
  console have no part in what follows and are left out, but for the two template
  literals that are evaluated to write them and may throw.
\<close>

record handlers =
  scan :: "string \<Rightarrow> string + WorkItem list"
  buildPrompt :: "WorkItem \<Rightarrow> thrown + string"
  handleResult :: "WorkItem \<Rightarrow> llm_result \<Rightarrow> thrown + handler_value"

definition spread_result :: "WorkItem \<Rightarrow> handler_value \<Rightarrow> ResultRecord" where
  \<comment> \<open>\<^verbatim>\<open>{ id: item.id, ...result }\<close>: a property \<open>id\<close> of the result overrides, and
      spreading \<open>null\<close> or \<open>undefined\<close> adds nothing\<close>
  "spread_result item v =
     (case v of
        Object result \<Rightarrow>
          \<lparr>rec_id = (case own_id result of None \<Rightarrow> item_id item | Some i \<Rightarrow> i),
           rec_status = status result, rec_fields = res_fields result\<rparr>
      | _ \<Rightarrow> \<lparr>rec_id = item_id item, rec_status = None, rec_fields = []\<rparr>)"

definition errorResult :: "WorkItem \<Rightarrow> string option \<Rightarrow> ResultRecord" where
  \<comment> \<open>\<^verbatim>\<open>{ id: item.id, status: 'error', reason: e.message }\<close>\<close>
  "errorResult item msg =
     \<lparr>rec_id = item_id item, rec_status = Some ''error'', rec_fields = [(''reason'', msg)]\<rparr>"

definition status_type_error :: "handler_value \<Rightarrow> string" where
  \<comment> \<open>the message of the \<open>TypeError\<close> that reading \<open>result.status\<close> of \<open>null\<close> or
      \<open>undefined\<close> throws, in the wording of V8\<close>
  "status_type_error v =
     ''Cannot read properties of '' @ (case v of Null \<Rightarrow> ''null'' | _ \<Rightarrow> ''undefined'')
     @ '' (reading '' @ [CHR 0x27] @ ''status'' @ [CHR 0x27] @ '')''"

text \<open>
  What one invocation of the handler of \<open>run\<close> does to the array \<open>progress.results\<close>, and
  how it ends:
  \<^item> \<open>Records rs\<close>: it pushes the records \<open>rs\<close>, each with the id of the item pushed to
    \<open>progress.completed\<close> and followed by a call of \<open>saveProgress\<close>, and returns the last;
  \<^item> \<open>Rejects\<close>: its promise rejects, nothing pushed;
  \<^item> \<open>Unsettled\<close>: it awaits \<open>runCodeagent\<close> until the process ends.
  Besides, the invocation is \<open>fatal\<close> when the write of its prompt fails, which ends the
  process.
\<close>

datatype handler_end = Records "ResultRecord list" | Rejects | Unsettled

record item_outcome =
  handler :: handler_end
  fatal :: bool

definition catch_block :: "WorkItem \<Rightarrow> ResultRecord list \<Rightarrow> thrown \<Rightarrow> handler_end" where
  \<comment> \<open>the \<open>catch\<close> block, entered with \<open>e\<close> after the \<open>try\<close> block has pushed the records
      \<open>pushed\<close>: the template literal of its first line reads \<open>e.message\<close>, which throws
      when \<open>e\<close> is \<open>null\<close> or \<open>undefined\<close>, out of the handler\<close>
  "catch_block item pushed e =
     (case e of
        Nullish \<Rightarrow> Rejects
      | Thrown msg \<Rightarrow> Records (pushed @ [errorResult item msg]))"

definition record_result :: "WorkItem \<Rightarrow> thrown + handler_value \<Rightarrow> handler_end" where
  \<comment> \<open>the handler from the end of \<open>handleResult\<close> on: the two pushes and \<open>saveProgress\<close>,
      then the template literal that reads \<open>result.status\<close>, still inside \<open>try\<close>\<close>
  "record_result item answer =
     (case answer of
        Inl e \<Rightarrow> catch_block item [] e
      | Inr (Object result) \<Rightarrow> Records [spread_result item (Object result)]
      | Inr v \<Rightarrow>
          catch_block item [spread_result item v] (Thrown (Some (status_type_error v))))"

definition process_item ::
  "handlers \<Rightarrow> (WorkItem \<Rightarrow> string \<Rightarrow> child_run) \<Rightarrow> WorkItem \<Rightarrow> item_outcome" where
  "process_item h child item =
     (case buildPrompt h item of
        Inl e \<Rightarrow> \<lparr>handler = catch_block item [] e, fatal = False\<rparr>
      | Inr prompt \<Rightarrow>
          \<lparr>handler =
             (case runCodeagent (child item prompt) of
                None \<Rightarrow> Unsettled
              | Some llmResult \<Rightarrow> record_result item (handleResult h item llmResult)),
           fatal = stdin_error (child item prompt)\<rparr>)"

definition records_of :: "item_outcome \<Rightarrow> ResultRecord list" where
  "records_of out = (case handler out of Records rs \<Rightarrow> rs | Rejects \<Rightarrow> [] | Unsettled \<Rightarrow> [])"

subsection \<open>Files\<close>

text \<open>
  A file read by \<open>readJsonSafe\<close>: absent, unreadable, or a text that \<open>JSON.parse\<close> either
  rejects (\<open>None\<close>) or turns into a value. A checkpoint that parses is taken to have the
  shape \<open>saveProgress\<close> writes.
\<close>

datatype 'a json_file = Missing | Unreadable | Text "'a option"

definition readJsonSafe :: "'a json_file \<Rightarrow> 'a \<Rightarrow> 'a" where
  "readJsonSafe file defaultValue =
     (case file of
        Missing \<Rightarrow> defaultValue
      | Unreadable \<Rightarrow> defaultValue
      | Text None \<Rightarrow> defaultValue
      | Text (Some v) \<Rightarrow> v)"

record env =
  process_cwd :: string
  log_writable :: bool
  progress_file :: "Progress json_file"
  checkpoint_write_ok :: "nat \<Rightarrow> bool"
  result_writable :: bool
  child :: "WorkItem \<Rightarrow> string \<Rightarrow> child_run"

definition loadProgress :: "env \<Rightarrow> Progress" where
  "loadProgress e =
     readJsonSafe (progress_file e)
       \<lparr>p_status = ''idle'', p_items = [], p_completed = [], p_results = []\<rparr>"

subsection \<open>The store of result arrays\<close>

text \<open>
  \<open>progress.results\<close> and \<open>existingResults\<close> are references to arrays that \<open>push\<close> changes
  in place, so the arrays live in a store and the variables hold addresses.
\<close>

type_synonym addr = nat
type_synonym store = "ResultRecord list list"

definition alloc :: "store \<Rightarrow> ResultRecord list \<Rightarrow> addr \<times> store" where
  "alloc st arr = (length st, st @ [arr])"

definition push :: "store \<Rightarrow> addr \<Rightarrow> ResultRecord \<Rightarrow> store" where
  "push st a r = st[a := st ! a @ [r]]"

subsection \<open>The pool and the run\<close>

definition DEFAULT_CONCURRENCY :: int where
  "DEFAULT_CONCURRENCY = 6"

definition constructor_concurrency :: "int option \<Rightarrow> int" where
  \<comment> \<open>\<^verbatim>\<open>options.concurrency || DEFAULT_CONCURRENCY\<close>\<close>
  "constructor_concurrency c =
     (case c of None \<Rightarrow> DEFAULT_CONCURRENCY | Some n \<Rightarrow> if n = 0 then DEFAULT_CONCURRENCY else n)"

record run_options =
  resume :: "bool option"
  cwd :: "string option"

text \<open>
  The state of \<open>run\<close> while \<open>runWithConcurrency\<close> is at work. \<open>limit\<close> is \<open>this.concurrency\<close>,
  the \<open>prog_\<close> fields are the object \<open>progress\<close>, and tasks are named by their index in
  \<open>tasks\<close>. A handler invocation is \<open>active\<close> from its start until it is through with its
  pushes or its promise rejects; \<open>pushes\<close> lists the pushes to \<open>progress.results\<close> by the
  task that made them, in their order. A handler through with its pushes is in \<open>recorded\<close>
  and goes on to await \<open>saveProgress\<close> and the log; when the promise made of it is
  fulfilled, and so deleted from \<open>executing\<close>, it is in \<open>settled\<close>. The promise of a handler
  in \<open>rejected\<close> has rejected; the callback of \<open>then\<close> does not run for it, and it stays in
  \<open>executing\<close>. \<open>waiting\<close> says that the loop is suspended in
  \<^verbatim>\<open>await Promise.race(executing)\<close>, \<open>race_rejected\<close> that this \<open>await\<close> has thrown, which
  ends the loop, and \<open>process_ended\<close> that the process has ended. \<open>saved\<close> lists the calls
  of \<open>saveProgress\<close>: the snapshot serialised, and what \<open>writeJsonSafe\<close> returned.
\<close>

record pool =
  tasks :: "WorkItem list"
  limit :: int
  next_task :: nat
  waiting :: bool
  race_rejected :: bool
  process_ended :: bool
  active :: "nat list"
  pushes :: "nat list"
  recorded :: "nat list"
  rejected :: "nat list"
  settled :: "nat list"
  prog_status :: string
  prog_items :: "WorkItem list"
  prog_completed :: "string list"
  prog_results :: addr
  existingResults :: addr
  heap :: store
  saved :: "(Progress \<times> bool) list"

definition executing :: "pool \<Rightarrow> nat list" where
  \<comment> \<open>the promises in the set \<open>executing\<close>; a handler invocation is in flight from its
      start until it returns or throws, and its promise is deleted from the set only after
      it has returned\<close>
  "executing s = active s @ rejected s @ filter (\<lambda>i. i \<notin> set (settled s)) (recorded s)"

definition snapshot :: "pool \<Rightarrow> Progress" where
  \<comment> \<open>\<open>JSON.stringify(progress)\<close>\<close>
  "snapshot s =
     \<lparr>p_status = prog_status s, p_items = prog_items s, p_completed = prog_completed s,
      p_results = heap s ! prog_results s\<rparr>"

definition writeJsonSafe :: "bool \<Rightarrow> bool" where
  \<comment> \<open>\<^verbatim>\<open>try { await fs.writeFile(...); return true; } catch { return false; }\<close>, the
      argument saying whether the write goes through\<close>
  "writeJsonSafe written = (if written then True else False)"

definition saveProgress :: "(nat \<Rightarrow> bool) \<Rightarrow> pool \<Rightarrow> pool" where
  \<comment> \<open>\<^verbatim>\<open>await writeJsonSafe(this.progressFile, progress)\<close>: the value returned is dropped,
      and kept here in \<open>saved\<close> only; \<open>write_ok k\<close> says whether write number \<open>k\<close> of the
      checkpoint goes through\<close>
  "saveProgress write_ok s =
     s\<lparr>saved := saved s @ [(snapshot s, writeJsonSafe (write_ok (length (saved s))))]\<rparr>"

definition push_record :: "(WorkItem \<Rightarrow> item_outcome) \<Rightarrow> pool \<Rightarrow> nat \<Rightarrow> pool" where
  \<comment> \<open>the next push of the handler of task \<open>i\<close>: \<^verbatim>\<open>progress.completed.push(item.id)\<close> and
      \<^verbatim>\<open>progress.results.push(...)\<close>; after its last push the handler only returns\<close>
  "push_record outcome s i =
     (let rs = records_of (outcome (tasks s ! i));
          k = count_list (pushes s) i;
          s' = s\<lparr>pushes := pushes s @ [i],
                 prog_completed := prog_completed s @ [item_id (tasks s ! i)],
                 heap := push (heap s) (prog_results s) (rs ! k)\<rparr>
      in if Suc k = length rs
         then s'\<lparr>active := removeAll i (active s), recorded := recorded s @ [i]\<rparr>
         else s')"

text \<open>
  JavaScript runs one piece of code at a time and leaves it at an \<open>await\<close> only, so the
  pool moves by events, in any order that the code allows:
  \<^item> \<open>Start\<close>, one turn of the loop of \<open>runWithConcurrency\<close>: it calls the handler for the
    next task, adds the promise to \<open>executing\<close>, and awaits the race if
    \<^verbatim>\<open>executing.size >= concurrency\<close>; a race among promises of which one has rejected
    already rejects. The handler itself stops at its first \<open>await\<close>.
  \<^item> \<open>Record i\<close>, in the handler of task \<open>i\<close>, once \<open>buildPrompt\<close>, \<open>runCodeagent\<close> and
    \<open>handleResult\<close> are through or one of them has thrown: the push to
    \<open>progress.completed\<close>, the push to \<open>progress.results\<close> and the call of \<open>saveProgress\<close>,
    which serialises \<open>progress\<close> before it awaits the write. There is no \<open>await\<close> between
    the three. A handler that pushes in \<open>try\<close> and again in \<open>catch\<close> awaits \<open>saveProgress\<close>
    between the two, so they are two events.
  \<^item> \<open>Settle i\<close>, the callback of \<open>then\<close>: the handler has returned, the promise leaves
    \<open>executing\<close>, and a race that was awaited is won, so the loop may go on.
  \<^item> \<open>Reject i\<close>: the handler of task \<open>i\<close> throws out of its \<open>catch\<close> block. A race that is
    awaited rejects, and the loop ends.
  \<^item> \<open>Die i\<close>: the write of the prompt of task \<open>i\<close>, whose handler has been started,
    fails and the process ends; no event follows.
  An event that the code does not allow in a state has no successor. The loop itself runs
  from one \<open>await\<close> to the next without a break; here other events may also come between
  two of its turns, which adds orders of events and leaves out none. The indices in
  \<open>active\<close> are below \<open>next_task\<close>, which is at most the number of tasks (\<open>pool_inv\<close>), so
  \<open>tasks s ! i\<close> is a task.
\<close>

datatype event = Start | Record nat | Settle nat | Reject nat | Die nat

fun runWithConcurrency_step ::
  "(WorkItem \<Rightarrow> item_outcome) \<Rightarrow> (nat \<Rightarrow> bool) \<Rightarrow> pool \<Rightarrow> event \<Rightarrow> pool option" where
  "runWithConcurrency_step outcome write_ok s Start =
     (if process_ended s \<or> race_rejected s \<or> waiting s \<or> length (tasks s) \<le> next_task s
      then None
      else
        let s' = s\<lparr>active := active s @ [next_task s], next_task := Suc (next_task s)\<rparr>;
            full = (limit s \<le> int (length (executing s')))
        in Some (s'\<lparr>waiting := full, race_rejected := (full \<and> rejected s \<noteq> [])\<rparr>))"
| "runWithConcurrency_step outcome write_ok s (Record i) =
     (if process_ended s \<or> i \<notin> set (active s)
         \<or> length (records_of (outcome (tasks s ! i))) \<le> count_list (pushes s) i
      then None
      else Some (saveProgress write_ok (push_record outcome s i)))"
| "runWithConcurrency_step outcome write_ok s (Settle i) =
     (if process_ended s \<or> i \<notin> set (recorded s) \<or> i \<in> set (settled s) then None
      else Some (s\<lparr>settled := settled s @ [i], waiting := False\<rparr>))"
| "runWithConcurrency_step outcome write_ok s (Reject i) =
     (if process_ended s \<or> i \<notin> set (active s) \<or> handler (outcome (tasks s ! i)) \<noteq> Rejects
      then None
      else Some (s\<lparr>active := removeAll i (active s), rejected := rejected s @ [i],
                   race_rejected := (race_rejected s \<or> waiting s)\<rparr>))"
| "runWithConcurrency_step outcome write_ok s (Die i) =
     (if process_ended s \<or> next_task s \<le> i \<or> \<not> fatal (outcome (tasks s ! i)) then None
      else Some (s\<lparr>process_ended := True\<rparr>))"

fun runWithConcurrency_events ::
  "(WorkItem \<Rightarrow> item_outcome) \<Rightarrow> (nat \<Rightarrow> bool) \<Rightarrow> event list \<Rightarrow> pool \<Rightarrow> pool option" where
  "runWithConcurrency_events outcome write_ok [] s = Some s"
| "runWithConcurrency_events outcome write_ok (ev # evs) s =
     (case runWithConcurrency_step outcome write_ok s ev of
        None \<Rightarrow> None
      | Some s' \<Rightarrow> runWithConcurrency_events outcome write_ok evs s')"

definition finished :: "pool \<Rightarrow> bool" where
  \<comment> \<open>the loop is through and \<open>Promise.all(results)\<close> is fulfilled\<close>
  "finished s \<longleftrightarrow>
     next_task s = length (tasks s) \<and> \<not> waiting s \<and> \<not> race_rejected s \<and> \<not> process_ended s
     \<and> active s = [] \<and> rejected s = [] \<and> set (recorded s) \<subseteq> set (settled s)"

definition all_rejected :: "pool \<Rightarrow> bool" where
  \<comment> \<open>the loop is through and \<open>Promise.all(results)\<close> rejects\<close>
  "all_rejected s \<longleftrightarrow>
     next_task s = length (tasks s) \<and> \<not> waiting s \<and> rejected s \<noteq> []"

text \<open>
  How \<open>run\<close> ends other than by returning its summary: it rejects with what the write of
  the empty log file, \<open>scan\<close>, \<open>runWithConcurrency\<close>, the summary or the write of the result
  file throws, or the process ends under it.
\<close>

datatype run_error =
  LogWriteFailed | ScanFailed string | HandlerRejected | ProcessEnded | SummaryFailed
  | ResultWriteFailed

definition start_pool :: "int \<Rightarrow> WorkItem list \<Rightarrow> Progress \<Rightarrow> addr \<Rightarrow> addr \<Rightarrow> store \<Rightarrow> pool" where
  "start_pool n todo progress a_results a_existing st =
     \<lparr>tasks = todo, limit = n, next_task = 0, waiting = False, race_rejected = False,
      process_ended = False, active = [], pushes = [], recorded = [], rejected = [],
      settled = [], prog_status = p_status progress, prog_items = p_items progress,
      prog_completed = p_completed progress, prog_results = a_results,
      existingResults = a_existing, heap = st, saved = []\<rparr>"

definition run_cwd :: "env \<Rightarrow> run_options \<Rightarrow> string" where
  \<comment> \<open>\<^verbatim>\<open>options.cwd || process.cwd()\<close>\<close>
  "run_cwd e opts =
     (case cwd opts of None \<Rightarrow> process_cwd e | Some c \<Rightarrow> if c = [] then process_cwd e else c)"

text \<open>
  \<open>run\<close> up to the call of \<open>runWithConcurrency\<close>. Writing the empty log file may throw, and
  so may \<open>scan\<close>. Three arrays of results are made, in this order: \<open>results\<close> of the
  progress object loaded, the literal of \<^verbatim>\<open>let existingResults = []\<close>, and, when the run
  scans, \<open>results\<close> of the new progress object. When the run resumes,
  \<^verbatim>\<open>existingResults = progress.results || []\<close> gives \<open>existingResults\<close> the address of the
  first: an array is truthy, also when empty.
\<close>

definition run_init :: "int \<Rightarrow> env \<Rightarrow> handlers \<Rightarrow> run_options \<Rightarrow> run_error + pool" where
  "run_init n e h opts =
     (if \<not> log_writable e then Inl LogWriteFailed
      else
        let progress = loadProgress e;
            (a_loaded, st1) = alloc [] (p_results progress);
            (a_empty, st2) = alloc st1 []
        in
          if resume opts = Some True \<and> p_status progress = ''running'' then
            Inr (start_pool n
                  (filter (\<lambda>item. item_id item \<notin> set (p_completed progress)) (p_items progress))
                  progress a_loaded a_loaded st2)
          else
            (case scan h (run_cwd e opts) of
               Inl msg \<Rightarrow> Inl (ScanFailed msg)
             | Inr allItems \<Rightarrow>
                 let (a_fresh, st3) = alloc st2 []
                 in Inr (saveProgress (checkpoint_write_ok e)
                      (start_pool n allItems
                         \<lparr>p_status = ''running'', p_items = allItems, p_completed = [],
                          p_results = []\<rparr>
                         a_fresh a_empty st3))))"

fun str_includes :: "string \<Rightarrow> string \<Rightarrow> bool" where
  "str_includes [] sub = (sub = [])"
| "str_includes (c # cs) sub = (take (length sub) (c # cs) = sub \<or> str_includes cs sub)"

text \<open>
  \<open>byStatus\<close> is a plain object, so a key that it does not own is looked up in
  \<open>Object.prototype\<close>. For the names of the properties found there
  \<^verbatim>\<open>(byStatus[r.status] || 0) + 1\<close> is not a number but the text of a function followed by
  \<open>1\<close>; that text is stored, and extended by another \<open>1\<close> at every later record of the
  status. The assignment to \<open>__proto__\<close> of a value that is not an object does nothing. A
  record without a status is counted under the key \<open>undefined\<close>.
\<close>

datatype tally = Count nat | Garbled

definition object_prototype_keys :: "string list" where
  "object_prototype_keys =
     [''constructor'', ''__defineGetter__'', ''__defineSetter__'', ''hasOwnProperty'',
      ''__lookupGetter__'', ''__lookupSetter__'', ''isPrototypeOf'', ''propertyIsEnumerable'',
      ''toString'', ''valueOf'', ''toLocaleString'']"

definition status_key :: "ResultRecord \<Rightarrow> string" where
  "status_key r = (case rec_status r of None \<Rightarrow> ''undefined'' | Some st \<Rightarrow> st)"

record resultData =
  rd_status :: string
  processed :: nat
  byStatus :: "string \<rightharpoonup> tally"
  failed :: nat
  failedList :: "ResultRecord list"

definition count_status :: "ResultRecord \<Rightarrow> (string \<rightharpoonup> tally) \<Rightarrow> (string \<rightharpoonup> tally)" where
  \<comment> \<open>\<^verbatim>\<open>byStatus[r.status] = (byStatus[r.status] || 0) + 1\<close>\<close>
  "count_status r m =
     (let k = status_key r in
      if k = ''__proto__'' then m
      else case m k of
             Some (Count c) \<Rightarrow> m(k \<mapsto> Count (c + 1))
           | Some Garbled \<Rightarrow> m(k \<mapsto> Garbled)
           | None \<Rightarrow> if k \<in> set object_prototype_keys then m(k \<mapsto> Garbled)
                     else m(k \<mapsto> Count 1))"

definition returned :: "item_outcome \<Rightarrow> ResultRecord list" where
  \<comment> \<open>what the handler returns, if it returns: the last record it pushed\<close>
  "returned out = (case records_of out of [] \<Rightarrow> [] | r # rs \<Rightarrow> [last (r # rs)])"

definition allResults :: "(WorkItem \<Rightarrow> item_outcome) \<Rightarrow> pool \<Rightarrow> ResultRecord list" where
  \<comment> \<open>\<^verbatim>\<open>[...existingResults, ...results]\<close>, \<open>results\<close> being what the handlers returned, in
      the order of \<open>tasks\<close>\<close>
  "allResults outcome s = heap s ! existingResults s @ concat (map (returned \<circ> outcome) (tasks s))"

text \<open>
  \<open>run\<close> after \<open>runWithConcurrency\<close>: the summary, in which \<^verbatim>\<open>r.status.includes('error')\<close>
  throws for a record without a status, and the write of the result file, which may
  throw (\<open>completedAt\<close>, a time stamp, is left out, and so is \<open>clearProgress\<close>, which unlinks
  the progress file and cannot throw).
\<close>

definition finish :: "env \<Rightarrow> (WorkItem \<Rightarrow> item_outcome) \<Rightarrow> pool \<Rightarrow> run_error + resultData" where
  "finish e outcome s =
     (let errors = filter (\<lambda>r. case rec_status r of None \<Rightarrow> False
                                | Some st \<Rightarrow> str_includes st ''error'') (allResults outcome s)
      in if list_ex (\<lambda>r. rec_status r = None) (allResults outcome s) then Inl SummaryFailed
         else if result_writable e then
           Inr \<lparr>rd_status = ''success'', processed = length (allResults outcome s),
                byStatus = fold count_status (allResults outcome s) Map.empty,
                failed = length errors, failedList = errors\<rparr>
         else Inl ResultWriteFailed)"

text \<open>
  A run of \<open>BatchRunner.run\<close> with concurrency \<open>n\<close> under a schedule of the events of the
  pool. \<open>None\<close> is a schedule that the pool cannot follow, or after which \<open>run\<close> still awaits
  \<open>runWithConcurrency\<close>. No event follows the end of the process, so a promise that has
  rejected has done so before, and \<open>run\<close> with it. When no handler rejects and the process does not end, every pool
  can be finished, for one by \<open>serial_schedule\<close> (lemma \<open>serial_schedule_finishes\<close>), and
  from wherever it has got to (lemma \<open>run_never_stuck\<close>).
\<close>

definition run_pool ::
  "int \<Rightarrow> env \<Rightarrow> handlers \<Rightarrow> run_options \<Rightarrow> event list \<Rightarrow> (run_error + pool) option" where
  "run_pool n e h opts sched =
     (case run_init n e h opts of
        Inl err \<Rightarrow> Some (Inl err)
      | Inr s0 \<Rightarrow>
          (case runWithConcurrency_events (process_item h (child e)) (checkpoint_write_ok e)
                  sched s0 of
             None \<Rightarrow> None
           | Some s \<Rightarrow>
               if race_rejected s \<or> all_rejected s then Some (Inl HandlerRejected)
               else if process_ended s then Some (Inl ProcessEnded)
               else if finished s then Some (Inr s) else None))"

definition run ::
  "int \<Rightarrow> env \<Rightarrow> handlers \<Rightarrow> run_options \<Rightarrow> event list \<Rightarrow> (run_error + resultData) option" where
  "run n e h opts sched =
     (case run_pool n e h opts sched of
        None \<Rightarrow> None
      | Some (Inl err) \<Rightarrow> Some (Inl err)
      | Some (Inr s) \<Rightarrow> Some (finish e (process_item h (child e)) s))"

definition serial_schedule :: "nat \<Rightarrow> event list" where
  \<comment> \<open>one task after the other\<close>
  "serial_schedule n = concat (map (\<lambda>i. [Start, Record i, Settle i]) [0..<n])"

subsection \<open>What the claims about the runner speak of\<close>

definition conc_inv :: "pool \<Rightarrow> bool" where
  \<comment> \<open>the loop leaves the race only with a free slot\<close>
  "conc_inv s \<longleftrightarrow>
     (if waiting s then int (length (executing s)) \<le> limit s
      else int (length (executing s)) < limit s)"

definition idle_at :: "nat \<Rightarrow> pool \<Rightarrow> bool" where
  \<comment> \<open>the first \<open>k\<close> tasks are through and nothing else has begun\<close>
  "idle_at k s \<longleftrightarrow>
     next_task s = k \<and> \<not> waiting s \<and> \<not> race_rejected s \<and> \<not> process_ended s \<and> active s = []
     \<and> rejected s = [] \<and> set (pushes s) \<subseteq> {..<k} \<and>
     set (recorded s) \<subseteq> set (settled s) \<and> set (settled s) \<subseteq> {..<k}"

definition pool_measure :: "(WorkItem \<Rightarrow> item_outcome) \<Rightarrow> pool \<Rightarrow> nat" where
  \<comment> \<open>a bound on the events still to come: for a task not begun its start, its pushes
      and the settling of its promise, for an active handler the pushes it still makes
      and the settling, one for a promise to settle, one for the process to end\<close>
  "pool_measure outcome s =
     sum_list (map (\<lambda>i. 2 + length (records_of (outcome (tasks s ! i))))
                 [next_task s..<length (tasks s)])
     + sum_list (map (\<lambda>i. 1 + (length (records_of (outcome (tasks s ! i)))
                              - count_list (pushes s) i)) (active s))
     + length (filter (\<lambda>i. i \<notin> set (settled s)) (recorded s))
     + (if process_ended s then 0 else 1)"


definition records_once :: "(WorkItem \<Rightarrow> item_outcome) \<Rightarrow> WorkItem list \<Rightarrow> bool" where
  \<comment> \<open>no handler pushes twice\<close>
  "records_once outcome ts \<longleftrightarrow> (\<forall>t \<in> set ts. length (records_of (outcome t)) \<le> 1)"

definition all_recorded :: "(WorkItem \<Rightarrow> item_outcome) \<Rightarrow> WorkItem list \<Rightarrow> bool" where
  \<comment> \<open>every handler pushes one record and returns\<close>
  "all_recorded outcome ts \<longleftrightarrow> (\<forall>t \<in> set ts. length (records_of (outcome t)) = 1)"

definition all_return :: "(WorkItem \<Rightarrow> item_outcome) \<Rightarrow> WorkItem list \<Rightarrow> bool" where
  \<comment> \<open>every handler pushes and returns, and every prompt is written\<close>
  "all_return outcome ts \<longleftrightarrow>
     (\<forall>t \<in> set ts. records_of (outcome t) \<noteq> [] \<and> \<not> fatal (outcome t))"



definition pushed :: "(WorkItem \<Rightarrow> item_outcome) \<Rightarrow> WorkItem list \<Rightarrow> nat list \<Rightarrow> ResultRecord list" where
  \<comment> \<open>the records appended by the pushes \<open>ps\<close>, when each handler pushes the records of
      its outcome one after the other, whatever other handlers push in between\<close>
  "pushed outcome ts ps =
     map (\<lambda>n. records_of (outcome (ts ! (ps ! n))) ! count_list (take n ps) (ps ! n))
       [0..<length ps]"

definition pool_inv ::
  "(WorkItem \<Rightarrow> item_outcome) \<Rightarrow> string list \<Rightarrow> ResultRecord list \<Rightarrow> pool \<Rightarrow> bool" where
  \<comment> \<open>what holds of a pool that began with the completed ids \<open>c0\<close> and the results \<open>r0\<close>\<close>
  "pool_inv outcome c0 r0 s \<longleftrightarrow>
     next_task s \<le> length (tasks s) \<and>
     distinct (active s @ rejected s @ recorded s) \<and>
     set (active s) \<union> set (rejected s) \<union> set (recorded s) = {..<next_task s} \<and>
     distinct (settled s) \<and> set (settled s) \<subseteq> set (recorded s) \<and>
     set (pushes s) \<subseteq> set (active s) \<union> set (recorded s) \<and>
     (\<forall>i. count_list (pushes s) i \<le> length (records_of (outcome (tasks s ! i)))) \<and>
     (\<forall>i \<in> set (recorded s).
        count_list (pushes s) i = length (records_of (outcome (tasks s ! i)))) \<and>
     prog_results s < length (heap s) \<and>
     prog_completed s = c0 @ map (\<lambda>i. item_id (tasks s ! i)) (pushes s) \<and>
     heap s ! prog_results s = r0 @ pushed outcome (tasks s) (pushes s)"

definition same_frame :: "pool \<Rightarrow> pool \<Rightarrow> bool" where
  \<comment> \<open>what no event changes\<close>
  "same_frame s s' \<longleftrightarrow>
     tasks s' = tasks s \<and> limit s' = limit s \<and> prog_status s' = prog_status s \<and>
     prog_items s' = prog_items s \<and> prog_results s' = prog_results s \<and>
     existingResults s' = existingResults s \<and> length (heap s') = length (heap s) \<and>
     (\<forall>a. a \<noteq> prog_results s \<longrightarrow> heap s' ! a = heap s ! a)"

definition scans :: "env \<Rightarrow> run_options \<Rightarrow> bool" where
  \<comment> \<open>the run takes the branch that scans\<close>
  "scans e opts \<longleftrightarrow> \<not> (resume opts = Some True \<and> p_status (loadProgress e) = ''running'')"

definition progress_ok :: "Progress \<Rightarrow> bool" where
  \<comment> \<open>the invariant of the checkpoint\<close>
  "progress_ok p \<longleftrightarrow>
     distinct (p_completed p) \<and> set (p_completed p) \<subseteq> item_id ` set (p_items p)
     \<and> length (p_results p) = length (p_completed p)"

definition items_ok :: "string list \<Rightarrow> ResultRecord list \<Rightarrow> pool \<Rightarrow> bool" where
  \<comment> \<open>what the pool starts from: completed ids \<open>c0\<close> with results \<open>r0\<close>, and tasks of
      other, pairwise distinct ids, all of them ids of \<open>items\<close>\<close>
  "items_ok c0 r0 s \<longleftrightarrow>
     distinct (c0 @ map item_id (tasks s)) \<and>
     set c0 \<union> item_id ` set (tasks s) \<subseteq> item_id ` set (prog_items s) \<and>
     length r0 = length c0"

definition saved_ok :: "pool \<Rightarrow> bool" where
  "saved_ok s \<longleftrightarrow> (\<forall>(snap, ok) \<in> set (saved s). progress_ok snap)"

definition resolves_to_objects :: "handlers \<Rightarrow> WorkItem list \<Rightarrow> bool" where
  \<comment> \<open>for these items \<open>handleResult\<close> keeps to its declared type: it never resolves to
      \<open>null\<close> or \<open>undefined\<close>\<close>
  "resolves_to_objects h ts \<longleftrightarrow>
     (\<forall>t \<in> set ts. \<forall>r. handleResult h t r \<noteq> Inr Null \<and> handleResult h t r \<noteq> Inr Undefined)"

definition throws_errors :: "handlers \<Rightarrow> WorkItem list \<Rightarrow> bool" where
  \<comment> \<open>what \<open>buildPrompt\<close> and \<open>handleResult\<close> throw for these items is never \<open>null\<close> or
      \<open>undefined\<close>\<close>
  "throws_errors h ts \<longleftrightarrow>
     (\<forall>t \<in> set ts. buildPrompt h t \<noteq> Inl Nullish \<and> (\<forall>r. handleResult h t r \<noteq> Inl Nullish))"

definition prompts_written ::
  "handlers \<Rightarrow> (WorkItem \<Rightarrow> string \<Rightarrow> child_run) \<Rightarrow> WorkItem list \<Rightarrow> bool" where
  \<comment> \<open>the prompt of every item is written to the command\<close>
  "prompts_written h c ts \<longleftrightarrow>
     (\<forall>t \<in> set ts. \<forall>p. buildPrompt h t = Inr p \<longrightarrow> \<not> stdin_error (c t p))"





subsection \<open>Example runs\<close>

definition item :: "string \<Rightarrow> WorkItem" where
  "item i = \<lparr>item_id = i, item_data = ''src/'' @ i\<rparr>"

definition example_items :: "WorkItem list" where
  "example_items = map item [''A'', ''B'', ''C'', ''D'']"

definition done_record :: "string \<Rightarrow> ResultRecord" where
  "done_record i = \<lparr>rec_id = i, rec_status = Some ''processed'', rec_fields = []\<rparr>"

text \<open>
  The handlers of the repository's callers (module-analyzer.js, code-audit.js) answer a
  failed invocation with the status \<open>llm_error\<close> and the error as the reason.
\<close>

definition llm_error_result :: "llm_result \<Rightarrow> HandlerResult" where
  "llm_error_result r =
     \<lparr>own_id = None, status = Some ''llm_error'',
      res_fields = [(''reason'', error r), (''sessionId'', sessionId r)]\<rparr>"

definition processed_result :: HandlerResult where
  "processed_result = \<lparr>own_id = None, status = Some ''processed'', res_fields = []\<rparr>"

definition example_handlers :: handlers where
  "example_handlers =
     \<lparr>scan = (\<lambda>dir. Inr example_items),
      buildPrompt = (\<lambda>it. Inr (''audit '' @ item_id it)),
      handleResult = (\<lambda>it r. if \<not> success r then Inr (Object (llm_error_result r))
                              else Inr (Object processed_result))\<rparr>"



definition undefined_handlers :: handlers where
  \<comment> \<open>\<open>handleResult\<close> returns nothing for \<open>A\<close>\<close>
  "undefined_handlers =
     example_handlers\<lparr>handleResult :=
       (\<lambda>it r. if item_id it = ''A'' then Inr Undefined else Inr (Object processed_result))\<rparr>"


definition ok_child :: "WorkItem \<Rightarrow> string \<Rightarrow> child_run" where
  "ok_child it prompt =
     \<lparr>stdout = ''{} '', stderr_chunks = [''SESSION_ID: 7f-01''], ending = Closed (Some 0),
      stdin_error = False\<rparr>"



definition example_env ::
  "Progress json_file \<Rightarrow> (nat \<Rightarrow> bool) \<Rightarrow> (WorkItem \<Rightarrow> string \<Rightarrow> child_run) \<Rightarrow> env" where
  "example_env file w c =
     \<lparr>process_cwd = ''/repo'', log_writable = True, progress_file = file,
      checkpoint_write_ok = w, result_writable = True, child = c\<rparr>"

definition checkpoint_AB :: "Progress json_file" where
  "checkpoint_AB =
     Text (Some \<lparr>p_status = ''running'', p_items = example_items, p_completed = [''A'', ''B''],
                 p_results = [done_record ''A'', done_record ''B'']\<rparr>)"

definition resume_opts :: run_options where
  "resume_opts = \<lparr>resume = Some True, cwd = None\<rparr>"

definition fresh_opts :: run_options where
  "fresh_opts = \<lparr>resume = None, cwd = None\<rparr>"

definition fresh_start :: "int \<Rightarrow> (nat \<Rightarrow> bool) \<Rightarrow> pool" where
  "fresh_start n w =
     saveProgress w
       (start_pool n example_items
          \<lparr>p_status = ''running'', p_items = example_items, p_completed = [], p_results = []\<rparr>
          2 1 [[], [], []])"

definition fresh_env :: env where
  "fresh_env = example_env Missing (\<lambda>k. True) ok_child"

definition interleaved :: "event list" where
  "interleaved =
     [Start, Start, Record 1, Settle 1, Start, Record 0, Record 2, Settle 2, Start, Settle 0,
      Record 3, Settle 3]"


definition failing_writes_env :: env where
  "failing_writes_env = example_env Missing (\<lambda>k. False) ok_child"


subsection \<open>Facts about the runner\<close>

lemma writeJsonSafe_id [simp]: "writeJsonSafe b = b"
  by (simp add: writeJsonSafe_def)

lemma constructor_concurrency_pos:
  "(case c of None \<Rightarrow> True | Some k \<Rightarrow> 0 \<le> k) \<Longrightarrow> 1 \<le> constructor_concurrency c"
  by (auto simp: constructor_concurrency_def DEFAULT_CONCURRENCY_def split: option.splits)

lemma length_filter_drop_one:
  assumes "i \<in> set xs" and "P i"
  shows "length (filter (\<lambda>j. P j \<and> j \<noteq> i) xs) < length (filter P xs)"
proof -
  have "filter (\<lambda>j. P j \<and> j \<noteq> i) xs = filter (\<lambda>j. j \<noteq> i) (filter P xs)"
    by (simp add: conj_commute)
  moreover have "i \<in> set (filter P xs)" using assms by simp
  then have "length (filter (\<lambda>j. j \<noteq> i) (filter P xs)) < length (filter P xs)"
    by (rule length_filter_less) simp
  ultimately show ?thesis by simp
qed

lemma push_record_same [simp]:
  "tasks (push_record outcome s i) = tasks s"
  "limit (push_record outcome s i) = limit s"
  "next_task (push_record outcome s i) = next_task s"
  "waiting (push_record outcome s i) = waiting s"
  "race_rejected (push_record outcome s i) = race_rejected s"
  "process_ended (push_record outcome s i) = process_ended s"
  "rejected (push_record outcome s i) = rejected s"
  "settled (push_record outcome s i) = settled s"
  "prog_status (push_record outcome s i) = prog_status s"
  "prog_items (push_record outcome s i) = prog_items s"
  "prog_results (push_record outcome s i) = prog_results s"
  "existingResults (push_record outcome s i) = existingResults s"
  "saved (push_record outcome s i) = saved s"
  by (simp_all add: push_record_def Let_def)

lemma saveProgress_same [simp]:
  "tasks (saveProgress w s) = tasks s"
  "limit (saveProgress w s) = limit s"
  "next_task (saveProgress w s) = next_task s"
  "waiting (saveProgress w s) = waiting s"
  "race_rejected (saveProgress w s) = race_rejected s"
  "process_ended (saveProgress w s) = process_ended s"
  "active (saveProgress w s) = active s"
  "pushes (saveProgress w s) = pushes s"
  "recorded (saveProgress w s) = recorded s"
  "rejected (saveProgress w s) = rejected s"
  "settled (saveProgress w s) = settled s"
  "prog_status (saveProgress w s) = prog_status s"
  "prog_items (saveProgress w s) = prog_items s"
  "prog_completed (saveProgress w s) = prog_completed s"
  "prog_results (saveProgress w s) = prog_results s"
  "existingResults (saveProgress w s) = existingResults s"
  "heap (saveProgress w s) = heap s"
  by (simp_all add: saveProgress_def)

lemma executing_saveProgress [simp]: "executing (saveProgress w s) = executing s"
  by (simp add: executing_def)

lemma snapshot_saveProgress [simp]: "snapshot (saveProgress w s) = snapshot s"
  by (simp add: snapshot_def)

lemma push_record_fields:
  "pushes (push_record outcome s i) = pushes s @ [i]"
  "prog_completed (push_record outcome s i) = prog_completed s @ [item_id (tasks s ! i)]"
  "heap (push_record outcome s i)
     = push (heap s) (prog_results s)
         (records_of (outcome (tasks s ! i)) ! count_list (pushes s) i)"
  "active (push_record outcome s i)
     = (if Suc (count_list (pushes s) i) = length (records_of (outcome (tasks s ! i)))
        then removeAll i (active s) else active s)"
  "recorded (push_record outcome s i)
     = (if Suc (count_list (pushes s) i) = length (records_of (outcome (tasks s ! i)))
        then recorded s @ [i] else recorded s)"
  by (simp_all add: push_record_def Let_def)

lemma push_record_executing:
  assumes "i \<in> set (active s)"
  shows "length (executing (push_record outcome s i)) \<le> length (executing s)"
proof -
  from assms have "length (removeAll i (active s)) < length (active s)"
    by (rule length_removeAll_less)
  then show ?thesis
    by (auto simp: push_record_def Let_def executing_def)
qed

lemma step_limit: "runWithConcurrency_step outcome w s ev = Some s' \<Longrightarrow> limit s' = limit s"
  by (cases ev) (auto simp: Let_def split: if_splits)

lemma step_conc_inv:
  assumes "conc_inv s" and "runWithConcurrency_step outcome w s ev = Some s'"
  shows "conc_inv s'"
proof (cases ev)
  case Start
  with assms show ?thesis
    by (auto simp: conc_inv_def executing_def Let_def split: if_splits)
next
  case (Record i)
  with assms(2) have i: "i \<in> set (active s)"
    and s': "s' = saveProgress w (push_record outcome s i)"
    by (auto split: if_splits)
  from push_record_executing [OF i, of outcome] assms(1) show ?thesis
    by (auto simp: conc_inv_def s' split: if_splits)
next
  case (Settle i)
  with assms(2) have i: "i \<in> set (recorded s)" "i \<notin> set (settled s)"
    by (auto split: if_splits)
  from Settle assms(2) i have s': "s' = s\<lparr>settled := settled s @ [i], waiting := False\<rparr>"
    by (simp split: if_splits)
  have "filter (\<lambda>j. j \<notin> set (settled s @ [i])) (recorded s)
      = filter (\<lambda>j. j \<notin> set (settled s) \<and> j \<noteq> i) (recorded s)"
    by (rule filter_cong) auto
  with length_filter_drop_one [of i "recorded s" "\<lambda>j. j \<notin> set (settled s)"] i
  have "length (executing s') < length (executing s)"
    by (simp add: executing_def s')
  moreover have "limit s' = limit s" "\<not> waiting s'" by (simp_all add: s')
  ultimately show ?thesis
    using assms(1) by (auto simp: conc_inv_def split: if_splits)
next
  case (Reject i)
  with assms(2) have i: "i \<in> set (active s)" by (auto split: if_splits)
  then have "length (removeAll i (active s)) < length (active s)"
    by (rule length_removeAll_less)
  with assms Reject i show ?thesis
    by (auto simp: conc_inv_def executing_def split: if_splits)
next
  case (Die i)
  with assms show ?thesis
    by (auto simp: conc_inv_def executing_def split: if_splits)
qed

lemma exec_conc_inv:
  "conc_inv s \<Longrightarrow> runWithConcurrency_events outcome w evs s = Some s' \<Longrightarrow> conc_inv s' \<and> limit s' = limit s"
proof (induction evs arbitrary: s)
  case Nil
  then show ?case by simp
next
  case (Cons ev evs)
  from Cons.prems(2) obtain t where t: "runWithConcurrency_step outcome w s ev = Some t" "runWithConcurrency_events outcome w evs t = Some s'"
    by (auto split: option.splits)
  from Cons.IH [OF step_conc_inv [OF Cons.prems(1) t(1)] t(2)] step_limit [OF t(1)]
  show ?case by simp
qed

lemma run_init_start:
  assumes "run_init n e h opts = Inr s0"
  shows "limit s0 = n \<and> next_task s0 = 0 \<and> \<not> waiting s0 \<and> active s0 = [] \<and> recorded s0 = []
     \<and> settled s0 = [] \<and> rejected s0 = [] \<and> pushes s0 = [] \<and> \<not> race_rejected s0
     \<and> \<not> process_ended s0"
  using assms
  by (auto simp: run_init_def start_pool_def saveProgress_def alloc_def Let_def
      split: if_splits sum.splits)

lemma step_same_frame: "runWithConcurrency_step outcome w s ev = Some s' \<Longrightarrow> same_frame s s'"
  by (cases ev)
    (auto simp: same_frame_def Let_def saveProgress_def push_record_def push_def
      split: if_splits)

lemma same_frame_trans: "same_frame s t \<Longrightarrow> same_frame t u \<Longrightarrow> same_frame s u"
  by (auto simp: same_frame_def)

lemma exec_same_frame:
  "runWithConcurrency_events outcome w evs s = Some s' \<Longrightarrow> same_frame s s'"
proof (induction evs arbitrary: s)
  case Nil
  then show ?case by (simp add: same_frame_def)
next
  case (Cons ev evs)
  from Cons.prems obtain t where t: "runWithConcurrency_step outcome w s ev = Some t"
    "runWithConcurrency_events outcome w evs t = Some s'"
    by (auto split: option.splits)
  from Cons.IH [OF t(2)] step_same_frame [OF t(1)] show ?case
    by (rule same_frame_trans [rotated])
qed

lemma all_recorded_once: "all_recorded outcome ts \<Longrightarrow> records_once outcome ts"
  by (simp add: all_recorded_def records_once_def)

lemma pushed_Nil [simp]: "pushed outcome ts [] = []"
  by (simp add: pushed_def)

lemma length_pushed [simp]: "length (pushed outcome ts ps) = length ps"
  by (simp add: pushed_def)

lemma pushed_snoc:
  "pushed outcome ts (ps @ [i])
     = pushed outcome ts ps @ [records_of (outcome (ts ! i)) ! count_list ps i]"
  by (simp add: pushed_def nth_append)

lemma pushed_distinct:
  assumes "distinct ps" and "\<forall>i \<in> set ps. records_of (outcome (ts ! i)) \<noteq> []"
  shows "pushed outcome ts ps = map (\<lambda>i. hd (records_of (outcome (ts ! i)))) ps"
  using assms
proof (induction ps rule: rev_induct)
  case Nil
  then show ?case by simp
next
  case (snoc i ps)
  from snoc.prems have "count_list ps i = 0" "records_of (outcome (ts ! i)) \<noteq> []"
    by (simp_all add: count_list_0_iff)
  with snoc show ?case by (simp add: pushed_snoc hd_conv_nth)
qed

lemma count_le_one_distinct: "(\<forall>a. count_list xs a \<le> 1) \<Longrightarrow> distinct xs"
proof (induction xs)
  case Nil
  then show ?case by simp
next
  case (Cons x xs)
  from Cons.prems have "count_list (x # xs) x \<le> 1" by blast
  then have "count_list xs x = 0" by simp
  then have x: "x \<notin> set xs" by (simp add: count_list_0_iff)
  have "count_list xs a \<le> 1" for a
  proof -
    from Cons.prems have "count_list (x # xs) a \<le> 1" by blast
    then show ?thesis by (simp split: if_splits)
  qed
  with Cons.IH x show ?case by simp
qed

lemma pool_inv_active:
  assumes "pool_inv outcome c0 r0 s" and "i \<in> set (active s)"
  shows "i < length (tasks s)" and "i \<notin> set (recorded s)" and "i \<notin> set (rejected s)"
    and "i \<notin> set (settled s)"
proof -
  from assms have "i \<in> {..<next_task s}" unfolding pool_inv_def by blast
  with assms(1) show "i < length (tasks s)" by (simp add: pool_inv_def)
  from assms show r: "i \<notin> set (recorded s)" and "i \<notin> set (rejected s)"
    by (auto simp: pool_inv_def)
  with assms(1) show "i \<notin> set (settled s)"
    by (auto simp: pool_inv_def)
qed

lemma pool_inv_pushes:
  assumes "pool_inv outcome c0 r0 s"
  shows "set (pushes s) \<subseteq> {..<next_task s}" and "set (pushes s) \<subseteq> {..<length (tasks s)}"
proof -
  from assms have a: "set (pushes s) \<subseteq> set (active s) \<union> set (recorded s)"
    and b: "set (active s) \<union> set (rejected s) \<union> set (recorded s) = {..<next_task s}"
    and c: "next_task s \<le> length (tasks s)"
    by (simp_all add: pool_inv_def)
  from a b show n: "set (pushes s) \<subseteq> {..<next_task s}" by blast
  show "set (pushes s) \<subseteq> {..<length (tasks s)}"
  proof
    fix x assume "x \<in> set (pushes s)"
    with n have "x < next_task s" by auto
    with c show "x \<in> {..<length (tasks s)}" by simp
  qed
qed

lemma step_pool_inv:
  assumes "pool_inv outcome c0 r0 s" and "runWithConcurrency_step outcome w s ev = Some s'"
  shows "pool_inv outcome c0 r0 s'"
proof (cases ev)
  case Start
  with assms(2) have s': "s' = s\<lparr>active := active s @ [next_task s], next_task := Suc (next_task s),
      waiting := (limit s \<le> int (length (executing
         (s\<lparr>active := active s @ [next_task s], next_task := Suc (next_task s)\<rparr>)))),
      race_rejected := ((limit s \<le> int (length (executing
         (s\<lparr>active := active s @ [next_task s], next_task := Suc (next_task s)\<rparr>))))
         \<and> rejected s \<noteq> [])\<rparr>"
    and lt: "next_task s < length (tasks s)"
    by (auto simp: Let_def split: if_splits)
  from assms(1) have "next_task s \<notin> set (active s) \<union> set (rejected s) \<union> set (recorded s)"
    by (simp add: pool_inv_def)
  with assms(1) lt show ?thesis
    unfolding s' pool_inv_def by (auto simp: lessThan_Suc)
next
  case (Record i)
  let ?rs = "records_of (outcome (tasks s ! i))" and ?k = "count_list (pushes s) i"
  from Record assms(2) have i: "i \<in> set (active s)" and k: "?k < length ?rs"
    and s': "s' = saveProgress w (push_record outcome s i)"
    by (auto split: if_splits)
  note a = pool_inv_active [OF assms(1) i]
  from assms(1) have inv: "next_task s \<le> length (tasks s)"
    "distinct (active s @ rejected s @ recorded s)"
    "set (active s) \<union> set (rejected s) \<union> set (recorded s) = {..<next_task s}"
    "distinct (settled s)" "set (settled s) \<subseteq> set (recorded s)"
    "set (pushes s) \<subseteq> set (active s) \<union> set (recorded s)"
    "\<forall>j. count_list (pushes s) j \<le> length (records_of (outcome (tasks s ! j)))"
    "\<forall>j \<in> set (recorded s). count_list (pushes s) j = length (records_of (outcome (tasks s ! j)))"
    "prog_results s < length (heap s)"
    "prog_completed s = c0 @ map (\<lambda>i. item_id (tasks s ! i)) (pushes s)"
    "heap s ! prog_results s = r0 @ pushed outcome (tasks s) (pushes s)"
    by (simp_all add: pool_inv_def)
  have 1: "next_task s' \<le> length (tasks s')" by (simp add: s' inv)
  have 2: "distinct (active s' @ rejected s' @ recorded s')"
    using inv(2) a i by (auto simp: s' push_record_fields distinct_removeAll)
  have 3: "set (active s') \<union> set (rejected s') \<union> set (recorded s') = {..<next_task s'}"
    using inv(3) i by (auto simp: s' push_record_fields)
  have 4: "distinct (settled s')" "set (settled s') \<subseteq> set (recorded s')"
    using inv(4,5) by (auto simp: s' push_record_fields)
  have 5: "set (pushes s') \<subseteq> set (active s') \<union> set (recorded s')"
    using inv(6) i by (auto simp: s' push_record_fields)
  have 6: "\<forall>j. count_list (pushes s') j \<le> length (records_of (outcome (tasks s' ! j)))"
    using inv(7) k by (auto simp: s' push_record_fields)
  have 7: "\<forall>j \<in> set (recorded s').
      count_list (pushes s') j = length (records_of (outcome (tasks s' ! j)))"
    using inv(8) k a(2) by (auto simp: s' push_record_fields)
  have 8: "prog_results s' < length (heap s')"
    using inv(9) by (simp add: s' push_record_fields push_def)
  have 9: "prog_completed s' = c0 @ map (\<lambda>i. item_id (tasks s' ! i)) (pushes s')"
    using inv(10) by (simp add: s' push_record_fields)
  have 10: "heap s' ! prog_results s' = r0 @ pushed outcome (tasks s') (pushes s')"
    using inv(9,11) by (simp add: s' push_record_fields push_def pushed_snoc)
  from 1 2 3 4 5 6 7 8 9 10 show ?thesis unfolding pool_inv_def by blast
next
  case (Settle i)
  with assms show ?thesis
    by (auto simp: pool_inv_def split: if_splits)
next
  case (Reject i)
  with assms(2) have i: "i \<in> set (active s)" and o: "handler (outcome (tasks s ! i)) = Rejects"
    and s': "s' = s\<lparr>active := removeAll i (active s), rejected := rejected s @ [i],
                   race_rejected := (race_rejected s \<or> waiting s)\<rparr>"
    by (auto split: if_splits)
  from assms(1) have "count_list (pushes s) i \<le> length (records_of (outcome (tasks s ! i)))"
    by (simp add: pool_inv_def)
  with o have "i \<notin> set (pushes s)" by (simp add: records_of_def count_list_0_iff)
  with pool_inv_active(2,3) [OF assms(1) i] assms(1) i show ?thesis
    unfolding s' pool_inv_def by (auto simp: distinct_removeAll)
next
  case (Die i)
  with assms show ?thesis
    by (auto simp: pool_inv_def split: if_splits)
qed

lemma exec_pool_inv:
  "pool_inv outcome c0 r0 s \<Longrightarrow> runWithConcurrency_events outcome w evs s = Some s' \<Longrightarrow>
     pool_inv outcome c0 r0 s' \<and> same_frame s s'"
proof (induction evs arbitrary: s)
  case Nil
  then show ?case by (simp add: same_frame_def)
next
  case (Cons ev evs)
  from Cons.prems(2) obtain t where t: "runWithConcurrency_step outcome w s ev = Some t" "runWithConcurrency_events outcome w evs t = Some s'"
    by (auto split: option.splits)
  from Cons.IH [OF step_pool_inv [OF Cons.prems(1) t(1)] t(2)] step_same_frame [OF t(1)]
  show ?case by (auto intro: same_frame_trans)
qed

lemma run_init_fresh:
  assumes "run_init n e h opts = Inr s0" and "scans e opts"
  shows "\<exists>items. scan h (run_cwd e opts) = Inr items \<and> tasks s0 = items \<and> prog_items s0 = items
     \<and> prog_status s0 = ''running''
     \<and> pool_inv outcome [] [] s0
     \<and> existingResults s0 \<noteq> prog_results s0 \<and> heap s0 ! existingResults s0 = []
     \<and> saved s0 = [(\<lparr>p_status = ''running'', p_items = items, p_completed = [], p_results = []\<rparr>,
                     checkpoint_write_ok e 0)]"
  using assms
  by (auto simp: run_init_def scans_def start_pool_def saveProgress_def alloc_def Let_def
      pool_inv_def snapshot_def nth_append split: if_splits sum.splits)

lemma run_init_resume:
  assumes "run_init n e h opts = Inr s0" and "\<not> scans e opts"
  shows "tasks s0 = filter (\<lambda>item. item_id item \<notin> set (p_completed (loadProgress e)))
                      (p_items (loadProgress e))
     \<and> prog_items s0 = p_items (loadProgress e)
     \<and> pool_inv outcome (p_completed (loadProgress e)) (p_results (loadProgress e)) s0
     \<and> existingResults s0 = prog_results s0
     \<and> saved s0 = []"
  using assms
  by (auto simp: run_init_def scans_def start_pool_def alloc_def Let_def
      pool_inv_def nth_append split: if_splits sum.splits)

lemma items_ok_frame: "same_frame s t \<Longrightarrow> items_ok c0 r0 s \<Longrightarrow> items_ok c0 r0 t"
  by (simp add: same_frame_def items_ok_def)

lemma pool_inv_once_distinct:
  assumes "records_once outcome (tasks s)" and "pool_inv outcome c0 r0 s"
  shows "distinct (pushes s)"
proof (rule count_le_one_distinct, rule allI)
  fix a
  show "count_list (pushes s) a \<le> 1"
  proof (cases "a \<in> set (pushes s)")
    case True
    with pool_inv_pushes(2) [OF assms(2)] have "a < length (tasks s)" by auto
    with assms(1) have "length (records_of (outcome (tasks s ! a))) \<le> 1"
      by (simp add: records_once_def)
    moreover from assms(2)
    have "count_list (pushes s) a \<le> length (records_of (outcome (tasks s ! a)))"
      by (simp add: pool_inv_def)
    ultimately show ?thesis by simp
  next
    case False
    then show ?thesis by (simp add: count_list_0_iff)
  qed
qed

lemma pool_inv_progress_ok:
  assumes "records_once outcome (tasks s)" and "pool_inv outcome c0 r0 s"
    and "items_ok c0 r0 s"
  shows "progress_ok (snapshot s)"
proof -
  let ?new = "map (\<lambda>i. item_id (tasks s ! i)) (pushes s)"
  note r = pool_inv_once_distinct [OF assms(1,2)] pool_inv_pushes(2) [OF assms(2)]
  from assms(2) have c: "prog_completed s = c0 @ ?new"
    and h: "heap s ! prog_results s = r0 @ pushed outcome (tasks s) (pushes s)"
    by (auto simp: pool_inv_def)
  from assms(3) have d: "distinct c0" "distinct (map item_id (tasks s))"
    and dj: "set c0 \<inter> item_id ` set (tasks s) = {}"
    and sb: "set c0 \<subseteq> item_id ` set (prog_items s)"
      "item_id ` set (tasks s) \<subseteq> item_id ` set (prog_items s)"
    and ln: "length r0 = length c0"
    by (auto simp: items_ok_def)
  have "inj_on (\<lambda>i. item_id (tasks s ! i)) (set (pushes s))"
  proof (rule inj_onI)
    fix i j assume "i \<in> set (pushes s)" "j \<in> set (pushes s)"
      and eq: "item_id (tasks s ! i) = item_id (tasks s ! j)"
    with r(2) have "i < length (tasks s)" "j < length (tasks s)" by auto
    with eq d(2) show "i = j"
      by (metis length_map nth_eq_iff_index_eq nth_map)
  qed
  with r(1) have n: "distinct ?new" by (simp add: distinct_map)
  have ns: "set ?new \<subseteq> item_id ` set (tasks s)" using r(2) by auto
  with dj have "set c0 \<inter> set ?new = {}" by blast
  with d(1) n have "distinct (prog_completed s)" unfolding c by simp
  moreover from ns sb have "set (prog_completed s) \<subseteq> item_id ` set (prog_items s)"
    unfolding c by auto
  ultimately show ?thesis
    by (simp add: progress_ok_def snapshot_def c h ln)
qed

lemma step_saved_ok:
  assumes "records_once outcome (tasks s)" and "pool_inv outcome c0 r0 s"
    and "items_ok c0 r0 s" and "saved_ok s"
    and "runWithConcurrency_step outcome w s ev = Some s'"
  shows "saved_ok s'"
proof (cases ev)
  case (Record i)
  let ?t = "push_record outcome s i"
  from Record assms(5) have s': "s' = saveProgress w ?t" by (auto split: if_splits)
  note f = step_same_frame [OF assms(5)]
  from f assms(1) have "records_once outcome (tasks s')" by (simp add: same_frame_def)
  moreover have "pool_inv outcome c0 r0 s'" by (rule step_pool_inv [OF assms(2,5)])
  moreover have "items_ok c0 r0 s'" by (rule items_ok_frame [OF f assms(3)])
  ultimately have "progress_ok (snapshot s')" by (rule pool_inv_progress_ok)
  then have "progress_ok (snapshot ?t)" by (simp add: s')
  with assms(4) show ?thesis
    by (auto simp: s' saveProgress_def saved_ok_def)
next
  case Start
  with assms(4,5) show ?thesis by (auto simp: saved_ok_def Let_def split: if_splits)
next
  case (Settle i)
  with assms(4,5) show ?thesis by (auto simp: saved_ok_def split: if_splits)
next
  case (Reject i)
  with assms(4,5) show ?thesis by (auto simp: saved_ok_def split: if_splits)
next
  case (Die i)
  with assms(4,5) show ?thesis by (auto simp: saved_ok_def split: if_splits)
qed

lemma exec_saved_ok:
  "records_once outcome (tasks s) \<Longrightarrow> pool_inv outcome c0 r0 s \<Longrightarrow> items_ok c0 r0 s \<Longrightarrow> saved_ok s
     \<Longrightarrow> runWithConcurrency_events outcome w evs s = Some s' \<Longrightarrow> saved_ok s'"
proof (induction evs arbitrary: s)
  case Nil
  then show ?case by simp
next
  case (Cons ev evs)
  from Cons.prems(5) obtain t where
    t: "runWithConcurrency_step outcome w s ev = Some t"
      "runWithConcurrency_events outcome w evs t = Some s'"
    by (auto split: option.splits)
  from step_same_frame [OF t(1)] have f: "same_frame s t" .
  show ?case
  proof (rule Cons.IH [OF _ _ _ _ t(2)])
    show "records_once outcome (tasks t)" using f Cons.prems(1) by (simp add: same_frame_def)
    show "pool_inv outcome c0 r0 t" by (rule step_pool_inv [OF Cons.prems(2) t(1)])
    show "items_ok c0 r0 t" by (rule items_ok_frame [OF f Cons.prems(3)])
    show "saved_ok t" by (rule step_saved_ok [OF Cons.prems(1-4) t(1)])
  qed
qed

lemma run_init_items_ok:
  assumes "run_init n e h opts = Inr s0" and "distinct (map item_id (prog_items s0))"
    and "scans e opts \<or> progress_ok (loadProgress e)"
  shows "\<exists>c0 r0. pool_inv outcome c0 r0 s0 \<and> items_ok c0 r0 s0 \<and> saved_ok s0"
proof (cases "scans e opts")
  case True
  from run_init_fresh [OF assms(1) True, of outcome] assms(2)
  have "pool_inv outcome [] [] s0 \<and> items_ok [] [] s0 \<and> saved_ok s0"
    by (auto simp: items_ok_def saved_ok_def progress_ok_def)
  then show ?thesis by blast
next
  case False
  let ?P = "loadProgress e"
  from False assms(3) have ok: "progress_ok ?P" by simp
  from run_init_resume [OF assms(1) False, of outcome]
  have t: "tasks s0 = filter (\<lambda>item. item_id item \<notin> set (p_completed ?P)) (p_items ?P)"
    and i: "prog_items s0 = p_items ?P"
    and inv: "pool_inv outcome (p_completed ?P) (p_results ?P) s0"
    and sv: "saved s0 = []"
    by auto
  from assms(2) i have "distinct (map item_id (tasks s0))"
    unfolding t by (simp add: distinct_map_filter)
  moreover have "set (p_completed ?P) \<inter> item_id ` set (tasks s0) = {}"
    unfolding t by auto
  ultimately have "items_ok (p_completed ?P) (p_results ?P) s0"
    using ok i unfolding items_ok_def progress_ok_def t by auto
  with inv sv show ?thesis by (auto simp: saved_ok_def)
qed

lemma runCodeagent_written: "\<not> stdin_error ch \<Longrightarrow> \<exists>r. runCodeagent ch = Some r"
  by (simp add: runCodeagent_def Let_def split: child_end.splits)

lemma process_item_once:
  assumes "resolves_to_objects h ts"
  shows "records_once (process_item h c) ts"
proof -
  have "length (records_of (process_item h c t)) \<le> 1" if t: "t \<in> set ts" for t
  proof (cases "buildPrompt h t")
    case (Inl e)
    then show ?thesis
      by (cases e) (simp_all add: process_item_def catch_block_def records_of_def)
  next
    case (Inr prompt)
    show ?thesis
    proof (cases "runCodeagent (c t prompt)")
      case None
      with Inr show ?thesis by (simp add: process_item_def records_of_def)
    next
      case (Some r)
      show ?thesis
      proof (cases "handleResult h t r")
        case (Inl e)
        with Inr Some show ?thesis
          by (cases e)
            (simp_all add: process_item_def record_result_def catch_block_def records_of_def)
      next
        case (Inr v)
        with assms t obtain result where "v = Object result"
          by (cases v) (auto simp: resolves_to_objects_def)
        with Inr \<open>buildPrompt h t = Inr prompt\<close> Some show ?thesis
          by (simp add: process_item_def record_result_def records_of_def)
      qed
    qed
  qed
  then show ?thesis by (simp add: records_once_def)
qed

lemma process_item_return:
  assumes "throws_errors h ts" and "prompts_written h c ts"
  shows "all_return (process_item h c) ts"
proof -
  have "records_of (process_item h c t) \<noteq> [] \<and> \<not> fatal (process_item h c t)"
    if t: "t \<in> set ts" for t
  proof (cases "buildPrompt h t")
    case (Inl e)
    with assms(1) t obtain msg where "e = Thrown msg"
      by (cases e) (auto simp: throws_errors_def)
    with Inl show ?thesis
      by (simp add: process_item_def catch_block_def records_of_def)
  next
    case (Inr prompt)
    with assms(2) t have w: "\<not> stdin_error (c t prompt)" by (simp add: prompts_written_def)
    from runCodeagent_written [OF this] obtain r where r: "runCodeagent (c t prompt) = Some r"
      by blast
    show ?thesis
    proof (cases "handleResult h t r")
      case (Inl e)
      with assms(1) t obtain msg where "e = Thrown msg"
        by (cases e) (auto simp: throws_errors_def)
      with Inl Inr r w show ?thesis
        by (simp add: process_item_def record_result_def catch_block_def records_of_def)
    next
      case Inr': (Inr v)
      with Inr r w show ?thesis
        by (cases v)
          (simp_all add: process_item_def record_result_def catch_block_def records_of_def)
    qed
  qed
  then show ?thesis by (simp add: all_return_def)
qed

lemma process_item_recorded:
  assumes "resolves_to_objects h ts" and "throws_errors h ts" and "prompts_written h c ts"
  shows "all_recorded (process_item h c) ts"
proof -
  from process_item_once [OF assms(1), of c] process_item_return [OF assms(2,3)]
  have "length (records_of (process_item h c t)) = 1" if "t \<in> set ts" for t
    using that
    by (cases "records_of (process_item h c t)") (auto simp: records_once_def all_return_def)
  then show ?thesis by (simp add: all_recorded_def)
qed

lemma step_saved_irrelevant:
  "rel_option (\<lambda>t t'. \<exists>sv'. t' = t\<lparr>saved := sv'\<rparr>)
     (runWithConcurrency_step outcome w s ev) (runWithConcurrency_step outcome w' (s\<lparr>saved := sv\<rparr>) ev)"
proof (cases ev)
  case Start
  show ?thesis
  proof (cases "process_ended s \<or> race_rejected s \<or> waiting s \<or> length (tasks s) \<le> next_task s")
    case True
    with Start show ?thesis by auto
  next
    case False
    with Start show ?thesis
      by (auto simp: Let_def executing_def intro!: exI [of _ sv])
  qed
next
  case (Record i)
  show ?thesis
  proof (cases "process_ended s \<or> i \<notin> set (active s)
         \<or> length (records_of (outcome (tasks s ! i))) \<le> count_list (pushes s) i")
    case True
    with Record show ?thesis by auto
  next
    case False
    have p: "push_record outcome (s\<lparr>saved := sv\<rparr>) i = (push_record outcome s i)\<lparr>saved := sv\<rparr>"
      by (simp add: push_record_def Let_def)
    from False Record show ?thesis
      by (auto simp: p saveProgress_def snapshot_def
          intro!: exI [of _ "sv @ [(snapshot (push_record outcome s i), w' (length sv))]"])
  qed
next
  case (Settle i)
  show ?thesis
  proof (cases "process_ended s \<or> i \<notin> set (recorded s) \<or> i \<in> set (settled s)")
    case True
    with Settle show ?thesis by auto
  next
    case False
    with Settle show ?thesis by (auto intro!: exI [of _ sv])
  qed
next
  case (Reject i)
  show ?thesis
  proof (cases "process_ended s \<or> i \<notin> set (active s)
         \<or> handler (outcome (tasks s ! i)) \<noteq> Rejects")
    case True
    with Reject show ?thesis by auto
  next
    case False
    with Reject show ?thesis by (auto intro!: exI [of _ sv])
  qed
next
  case (Die i)
  show ?thesis
  proof (cases "process_ended s \<or> next_task s \<le> i \<or> \<not> fatal (outcome (tasks s ! i))")
    case True
    with Die show ?thesis by auto
  next
    case False
    with Die show ?thesis by (auto intro!: exI [of _ sv])
  qed
qed

lemma exec_saved_irrelevant:
  "rel_option (\<lambda>t t'. \<exists>sv'. t' = t\<lparr>saved := sv'\<rparr>)
     (runWithConcurrency_events outcome w evs s) (runWithConcurrency_events outcome w' evs (s\<lparr>saved := sv\<rparr>))"
proof (induction evs arbitrary: s sv)
  case Nil
  then show ?case by auto
next
  case (Cons ev evs)
  show ?case
  proof (cases "runWithConcurrency_step outcome w s ev")
    case None
    with step_saved_irrelevant [of outcome w s ev w' sv] show ?thesis by simp
  next
    case (Some t)
    with step_saved_irrelevant [of outcome w s ev w' sv]
    obtain sv' where "runWithConcurrency_step outcome w' (s\<lparr>saved := sv\<rparr>) ev = Some (t\<lparr>saved := sv'\<rparr>)"
      by (auto simp: option_rel_Some1)
    with Some Cons.IH [of t sv'] show ?thesis by simp
  qed
qed

lemma finished_saved [simp]: "finished (s\<lparr>saved := sv\<rparr>) = finished s"
  by (simp add: finished_def)

lemma all_rejected_saved [simp]: "all_rejected (s\<lparr>saved := sv\<rparr>) = all_rejected s"
  by (simp add: all_rejected_def)

lemma allResults_saved [simp]: "allResults outcome (s\<lparr>saved := sv\<rparr>) = allResults outcome s"
  by (simp add: allResults_def)

lemma finish_saved [simp]: "finish e outcome (s\<lparr>saved := sv\<rparr>) = finish e outcome s"
  by (simp add: finish_def Let_def)

lemma finish_write_ok [simp]:
  "finish (e\<lparr>checkpoint_write_ok := w\<rparr>) outcome s = finish e outcome s"
  by (simp add: finish_def Let_def)

lemma run_init_write_ok:
  "rel_sum (=) (\<lambda>t t'. \<exists>sv'. t' = t\<lparr>saved := sv'\<rparr>)
     (run_init n e h opts) (run_init n (e\<lparr>checkpoint_write_ok := w\<rparr>) h opts)"
proof -
  have [simp]: "t = t\<lparr>saved := saved t\<rparr>" for t :: pool by simp
  show ?thesis
    by (auto simp: run_init_def loadProgress_def run_cwd_def saveProgress_def Let_def alloc_def
        snapshot_def start_pool_def split: sum.splits option.splits intro!: exI)
qed

text \<open>
  No write of the checkpoint has a part in what \<open>run\<close> returns: \<open>writeJsonSafe\<close> turns a
  failed write into \<open>false\<close>, and \<open>saveProgress\<close> drops that.
\<close>

lemma run_write_ok:
  "run n (e\<lparr>checkpoint_write_ok := w\<rparr>) h opts sched = run n e h opts sched"
proof (cases "run_init n e h opts")
  case (Inl err)
  with run_init_write_ok [of n e h opts w]
  have "run_init n (e\<lparr>checkpoint_write_ok := w\<rparr>) h opts = Inl err"
    by (cases "run_init n (e\<lparr>checkpoint_write_ok := w\<rparr>) h opts") auto
  with Inl show ?thesis by (simp add: run_def run_pool_def)
next
  case (Inr s0)
  with run_init_write_ok [of n e h opts w]
  obtain sv where i': "run_init n (e\<lparr>checkpoint_write_ok := w\<rparr>) h opts = Inr (s0\<lparr>saved := sv\<rparr>)"
    by (cases "run_init n (e\<lparr>checkpoint_write_ok := w\<rparr>) h opts") auto
  let ?o = "process_item h (child e)"
  show ?thesis
  proof (cases "runWithConcurrency_events ?o (checkpoint_write_ok e) sched s0")
    case None
    with exec_saved_irrelevant [of ?o "checkpoint_write_ok e" sched s0 w sv]
    have "runWithConcurrency_events ?o w sched (s0\<lparr>saved := sv\<rparr>) = None" by simp
    with None Inr i' show ?thesis by (simp add: run_def run_pool_def)
  next
    case (Some s)
    with exec_saved_irrelevant [of ?o "checkpoint_write_ok e" sched s0 w sv]
    obtain sv' where "runWithConcurrency_events ?o w sched (s0\<lparr>saved := sv\<rparr>) = Some (s\<lparr>saved := sv'\<rparr>)"
      by (auto simp: option_rel_Some1)
    with Some Inr i' show ?thesis by (simp add: run_def run_pool_def)
  qed
qed



lemma finished_pool_records:
  assumes "pool_inv outcome c0 r0 s0"
    and "runWithConcurrency_events outcome w evs s0 = Some s" and "finished s"
  shows "set (pushes s) \<subseteq> {..<length (tasks s0)}
     \<and> (\<forall>k < length (tasks s0).
          count_list (pushes s) k = length (records_of (outcome (tasks s0 ! k))))
     \<and> prog_completed s = c0 @ map (\<lambda>i. item_id (tasks s0 ! i)) (pushes s)
     \<and> heap s ! prog_results s = r0 @ pushed outcome (tasks s0) (pushes s)"
proof -
  from exec_pool_inv [OF assms(1,2)] have inv: "pool_inv outcome c0 r0 s" and f: "same_frame s0 s"
    by auto
  from f have t: "tasks s = tasks s0" by (simp add: same_frame_def)
  from inv assms(3) have "set (recorded s) = {..<length (tasks s)}"
    by (auto simp: pool_inv_def finished_def)
  with inv pool_inv_pushes(2) [OF inv] show ?thesis
    by (simp add: t pool_inv_def)
qed

lemma run_init_pool_inv:
  assumes "run_init n e h opts = Inr s0"
  shows "pool_inv outcome (prog_completed s0) (heap s0 ! prog_results s0) s0"
proof (cases "scans e opts")
  case True
  from run_init_fresh [OF assms True, of outcome] run_init_start [OF assms] show ?thesis
    by (auto simp: pool_inv_def)
next
  case False
  from run_init_resume [OF assms False, of outcome] run_init_start [OF assms] show ?thesis
    by (auto simp: pool_inv_def)
qed



lemma returned_one:
  "length (records_of out) = 1 \<Longrightarrow> returned out = [hd (records_of out)]"
  by (cases "records_of out") (auto simp: returned_def)

lemma returned_all:
  assumes "all_recorded outcome ts"
  shows "concat (map (returned \<circ> outcome) ts) = map (\<lambda>t. hd (records_of (outcome t))) ts"
  using assms by (induction ts) (auto simp: all_recorded_def returned_one)

lemma finished_once:
  assumes "all_recorded outcome (tasks s0)" and "pool_inv outcome c0 r0 s0"
    and "runWithConcurrency_events outcome w evs s0 = Some s" and "finished s"
  shows "distinct (pushes s) \<and> set (pushes s) = {..<length (tasks s0)}
     \<and> heap s ! prog_results s
         = r0 @ map (\<lambda>i. hd (records_of (outcome (tasks s0 ! i)))) (pushes s)"
proof -
  from exec_pool_inv [OF assms(2,3)] have inv: "pool_inv outcome c0 r0 s" and f: "same_frame s0 s"
    by auto
  from f have t: "tasks s = tasks s0" by (simp add: same_frame_def)
  from assms(1) t have once: "records_once outcome (tasks s)"
    by (simp add: all_recorded_once)
  note d = pool_inv_once_distinct [OF once inv]
  from finished_pool_records [OF assms(2-4)]
  have sb: "set (pushes s) \<subseteq> {..<length (tasks s0)}"
    and ct: "\<forall>k < length (tasks s0).
          count_list (pushes s) k = length (records_of (outcome (tasks s0 ! k)))"
    and h: "heap s ! prog_results s = r0 @ pushed outcome (tasks s0) (pushes s)"
    by auto
  have "k \<in> set (pushes s)" if "k < length (tasks s0)" for k
  proof -
    from that assms(1) have "length (records_of (outcome (tasks s0 ! k))) = 1"
      by (simp add: all_recorded_def)
    with ct that have "count_list (pushes s) k \<noteq> 0" by simp
    then show ?thesis by (simp add: count_list_0_iff)
  qed
  with sb have st: "set (pushes s) = {..<length (tasks s0)}" by auto
  have "\<forall>i \<in> set (pushes s). records_of (outcome (tasks s0 ! i)) \<noteq> []"
  proof
    fix i assume "i \<in> set (pushes s)"
    with sb have "i < length (tasks s0)" by auto
    with assms(1) have "length (records_of (outcome (tasks s0 ! i))) = 1"
      by (simp add: all_recorded_def)
    then show "records_of (outcome (tasks s0 ! i)) \<noteq> []" by auto
  qed
  from pushed_distinct [OF d this] d st h show ?thesis by simp
qed

lemma resume_allResults:
  assumes "run_init n e h opts = Inr s0" and "\<not> scans e opts"
    and "all_recorded outcome (tasks s0)"
    and "runWithConcurrency_events outcome w evs s0 = Some s" and "finished s"
  shows "allResults outcome s
     = p_results (loadProgress e) @ map (\<lambda>i. hd (records_of (outcome (tasks s0 ! i)))) (pushes s)
       @ map (\<lambda>t. hd (records_of (outcome t))) (tasks s0)
     \<and> length (allResults outcome s)
         = length (p_results (loadProgress e)) + 2 * length (tasks s0)"
proof -
  from run_init_resume [OF assms(1,2), of outcome]
  have inv: "pool_inv outcome (p_completed (loadProgress e)) (p_results (loadProgress e)) s0"
    and al: "existingResults s0 = prog_results s0" by auto
  from exec_same_frame [OF assms(4)] have f: "same_frame s0 s" .
  from finished_once [OF assms(3) inv assms(4,5)]
  have d: "distinct (pushes s)" "set (pushes s) = {..<length (tasks s0)}"
    and h: "heap s ! prog_results s
      = p_results (loadProgress e)
        @ map (\<lambda>i. hd (records_of (outcome (tasks s0 ! i)))) (pushes s)"
    by auto
  from d have "length (pushes s) = length (tasks s0)"
    by (metis card_lessThan distinct_card)
  with h f al returned_all [OF assms(3)] show ?thesis
    by (simp add: allResults_def same_frame_def)
qed

lemma fresh_allResults:
  assumes "run_init n e h opts = Inr s0" and "scans e opts"
    and "runWithConcurrency_events outcome w evs s0 = Some s"
  shows "allResults outcome s = concat (map (returned \<circ> outcome) (tasks s0))"
proof -
  from run_init_fresh [OF assms(1,2), of outcome]
  have ne: "existingResults s0 \<noteq> prog_results s0"
    and em: "heap s0 ! existingResults s0 = []" by auto
  from exec_same_frame [OF assms(3)] have f: "same_frame s0 s" .
  with ne em show ?thesis by (simp add: allResults_def same_frame_def)
qed

lemma serial_turn:
  assumes "idle_at k s" and "k < length (tasks s)" and "all_recorded outcome (tasks s)"
  shows "\<exists>s'. runWithConcurrency_events outcome w [Start, Record k, Settle k] s = Some s'
     \<and> idle_at (Suc k) s' \<and> tasks s' = tasks s"
proof -
  from assms(1) have a: "next_task s = k" "\<not> waiting s" "\<not> race_rejected s" "\<not> process_ended s"
    "active s = []" "rejected s = []" "set (pushes s) \<subseteq> {..<k}"
    "set (recorded s) \<subseteq> set (settled s)" "set (settled s) \<subseteq> {..<k}"
    by (auto simp: idle_at_def)
  then have n: "k \<notin> set (settled s)" "k \<notin> set (recorded s)" "k \<notin> set (pushes s)" by auto
  let ?s1 = "s\<lparr>active := [k], next_task := Suc k,
      waiting := (limit s \<le> int (length (executing (s\<lparr>active := [k], next_task := Suc k\<rparr>)))),
      race_rejected := False\<rparr>"
  from a assms(2) have s1: "runWithConcurrency_step outcome w s Start = Some ?s1"
    by (simp add: Let_def)
  from assms(2,3) have one: "length (records_of (outcome (tasks s ! k))) = 1"
    by (simp add: all_recorded_def)
  from n have zero: "count_list (pushes s) k = 0" by (simp add: count_list_0_iff)
  let ?s2 = "saveProgress w (push_record outcome ?s1 k)"
  from one zero a have s2: "runWithConcurrency_step outcome w ?s1 (Record k) = Some ?s2"
    by simp
  let ?s3 = "?s2\<lparr>settled := settled ?s2 @ [k], waiting := False\<rparr>"
  from n a one zero have s3: "runWithConcurrency_step outcome w ?s2 (Settle k) = Some ?s3"
    by (simp add: push_record_fields)
  from a n one zero have "idle_at (Suc k) ?s3"
    by (auto simp: idle_at_def push_record_fields)
  with s1 s2 s3 show ?thesis by simp
qed

lemma events_append:
  "runWithConcurrency_events outcome w (xs @ ys) s
     = (case runWithConcurrency_events outcome w xs s of
          None \<Rightarrow> None
        | Some t \<Rightarrow> runWithConcurrency_events outcome w ys t)"
  by (induction xs arbitrary: s) (auto split: option.splits)

lemma serial_from:
  assumes "idle_at k s" and "k \<le> length (tasks s)" and "all_recorded outcome (tasks s)"
  shows "\<exists>s'. runWithConcurrency_events outcome w
            (concat (map (\<lambda>i. [Start, Record i, Settle i]) [k..<length (tasks s)])) s = Some s'
     \<and> finished s'"
  using assms
proof (induction "length (tasks s) - k" arbitrary: k s)
  case 0
  then show ?case by (auto simp: idle_at_def finished_def)
next
  case (Suc d)
  then have lt: "k < length (tasks s)" by simp
  from serial_turn [OF Suc.prems(1) lt Suc.prems(3), of w] obtain t where
    t: "runWithConcurrency_events outcome w [Start, Record k, Settle k] s = Some t"
    and i: "idle_at (Suc k) t" and ts: "tasks t = tasks s"
    by blast
  from Suc.hyps(2) ts have "d = length (tasks t) - Suc k" by simp
  from Suc.hyps(1) [OF this i] lt ts Suc.prems(3) obtain s' where
    s': "runWithConcurrency_events outcome w
            (concat (map (\<lambda>i. [Start, Record i, Settle i]) [Suc k..<length (tasks s)])) t = Some s'"
    and f: "finished s'"
    by auto
  have "concat (map (\<lambda>i. [Start, Record i, Settle i]) [k..<length (tasks s)])
      = [Start, Record k, Settle k]
        @ concat (map (\<lambda>i. [Start, Record i, Settle i]) [Suc k..<length (tasks s)])"
    using lt by (simp add: upt_conv_Cons)
  with t s' f show ?case by (simp only: events_append) simp
qed

lemma serial_schedule_finishes:
  assumes "run_init n e h opts = Inr s0"
    and "all_recorded (process_item h (child e)) (tasks s0)"
  shows "\<exists>s. run_pool n e h opts (serial_schedule (length (tasks s0))) = Some (Inr s)"
proof -
  from run_init_start [OF assms(1)] have "idle_at 0 s0"
    by (simp add: idle_at_def)
  from serial_from [OF this _ assms(2), of "checkpoint_write_ok e"] assms(1)
  show ?thesis
    by (auto simp: run_pool_def serial_schedule_def finished_def all_rejected_def)
qed




lemma sum_list_pushes_other:
  "i \<notin> set xs \<Longrightarrow>
     sum_list (map (\<lambda>j. 1 + (n j - count_list (ps @ [i]) j)) xs)
       = sum_list (map (\<lambda>j. 1 + (n j - count_list ps j)) xs)"
  by (induction xs) auto

lemma sum_list_active_split:
  fixes f :: "nat \<Rightarrow> nat"
  assumes "distinct xs" and "i \<in> set xs"
  shows "sum_list (map f xs) = f i + sum_list (map f (removeAll i xs))"
    and "i \<notin> set (removeAll i xs)"
proof -
  from assms(1) have "removeAll i xs = remove1 i xs"
    by (simp add: distinct_remove1_removeAll)
  with sum_list_map_remove1 [OF assms(2), of f]
  show "sum_list (map f xs) = f i + sum_list (map f (removeAll i xs))" by simp
  show "i \<notin> set (removeAll i xs)" by simp
qed

lemma step_measure:
  assumes "pool_inv outcome c0 r0 s" and "runWithConcurrency_step outcome w s ev = Some s'"
  shows "pool_measure outcome s' < pool_measure outcome s"
proof (cases ev)
  case Start
  with assms(2) have lt: "next_task s < length (tasks s)" and live: "\<not> process_ended s"
    and s': "tasks s' = tasks s" "next_task s' = Suc (next_task s)"
      "active s' = active s @ [next_task s]" "pushes s' = pushes s" "recorded s' = recorded s"
      "settled s' = settled s" "process_ended s' = process_ended s"
    by (auto simp: Let_def split: if_splits)
  from pool_inv_pushes(1) [OF assms(1)] have "count_list (pushes s) (next_task s) = 0"
    by (auto simp: count_list_0_iff)
  with lt show ?thesis
    by (simp add: pool_measure_def s' upt_conv_Cons)
next
  case (Record i)
  let ?n = "\<lambda>j. length (records_of (outcome (tasks s ! j)))"
  from Record assms(2) have i: "i \<in> set (active s)"
    and k: "count_list (pushes s) i < ?n i"
    and s': "s' = saveProgress w (push_record outcome s i)"
    by (auto split: if_splits)
  from assms(1) have d: "distinct (active s)" by (simp add: pool_inv_def)
  note sp = sum_list_active_split [OF d i]
  let ?f = "\<lambda>ps j. 1 + (?n j - count_list ps j)"
  have old: "sum_list (map (?f (pushes s)) (active s))
      = ?f (pushes s) i + sum_list (map (?f (pushes s)) (removeAll i (active s)))"
    by (rule sp(1))
  have rest: "sum_list (map (?f (pushes s @ [i])) (removeAll i (active s)))
      = sum_list (map (?f (pushes s)) (removeAll i (active s)))"
    by (rule sum_list_pushes_other [OF sp(2)])
  show ?thesis
  proof (cases "Suc (count_list (pushes s) i) = ?n i")
    case True
    have "length (filter (\<lambda>j. j \<notin> set (settled s)) (recorded s @ [i]))
        \<le> Suc (length (filter (\<lambda>j. j \<notin> set (settled s)) (recorded s)))"
      by simp
    with True old rest show ?thesis
      by (simp add: pool_measure_def s' push_record_fields)
  next
    case False
    have new: "sum_list (map (?f (pushes s @ [i])) (active s))
      = ?f (pushes s @ [i]) i + sum_list (map (?f (pushes s @ [i])) (removeAll i (active s)))"
      by (rule sp(1))
    from False k old new rest show ?thesis
      by (simp add: pool_measure_def s' push_record_fields)
  qed
next
  case (Settle i)
  with assms(2) have i: "i \<in> set (recorded s)" "i \<notin> set (settled s)"
    by (auto split: if_splits)
  have "filter (\<lambda>j. j \<notin> set (settled s @ [i])) (recorded s)
      = filter (\<lambda>j. j \<notin> set (settled s) \<and> j \<noteq> i) (recorded s)"
    by (rule filter_cong) auto
  with length_filter_drop_one [of i "recorded s" "\<lambda>j. j \<notin> set (settled s)"] i assms(2) Settle
  show ?thesis by (auto simp: pool_measure_def split: if_splits)
next
  case (Reject i)
  with assms(2) have i: "i \<in> set (active s)"
    and s': "s' = s\<lparr>active := removeAll i (active s), rejected := rejected s @ [i],
                   race_rejected := (race_rejected s \<or> waiting s)\<rparr>"
    by (auto split: if_splits)
  from assms(1) have d: "distinct (active s)" by (simp add: pool_inv_def)
  from sum_list_active_split(1) [OF d i] show ?thesis
    by (simp add: pool_measure_def s')
next
  case (Die i)
  with assms(2) show ?thesis by (auto simp: pool_measure_def split: if_splits)
qed





lemma exec_measure:
  "pool_inv outcome c0 r0 s \<Longrightarrow> runWithConcurrency_events outcome w evs s = Some s' \<Longrightarrow>
     pool_measure outcome s' + length evs \<le> pool_measure outcome s"
proof (induction evs arbitrary: s)
  case Nil
  then show ?case by simp
next
  case (Cons ev evs)
  from Cons.prems(2) obtain t where
    t: "runWithConcurrency_step outcome w s ev = Some t"
      "runWithConcurrency_events outcome w evs t = Some s'"
    by (auto split: option.splits)
  from Cons.IH [OF step_pool_inv [OF Cons.prems(1) t(1)] t(2)] step_measure [OF Cons.prems(1) t(1)]
  show ?case by simp
qed


lemma run_bounded:
  assumes "run_init n e h opts = Inr s0"
    and "runWithConcurrency_events outcome w evs s0 = Some s"
  shows "length evs \<le> pool_measure outcome s0"
  using exec_measure [OF run_init_pool_inv [OF assms(1)] assms(2)] by simp

subsection \<open>Properties of the runner\<close>

text \<open>
  Claim C1 (resume correctness), at the checkpoint of the specification: \<open>A\<close> and \<open>B\<close>
  completed out of \<open>A\<close>, \<open>B\<close>, \<open>C\<close>, \<open>D\<close>. The resumed run processes \<open>C\<close> and \<open>D\<close> and no
  other item. But \<open>existingResults\<close> is the array \<open>progress.results\<close> itself, into which
  the handlers push, so the aggregate \<^verbatim>\<open>[...existingResults, ...results]\<close> holds the
  records of \<open>C\<close> and \<open>D\<close> twice and the summary counts six processed items, not four.
\<close>

theorem resume_counts_new_results_twice:
  "map_option
     (map_sum id (\<lambda>s. (map item_id (tasks s),
                        map rec_id (allResults (process_item example_handlers ok_child) s))))
     (run_pool 6 (example_env checkpoint_AB (\<lambda>k. True) ok_child) example_handlers resume_opts
        (serial_schedule 2))
   = Some (Inr ([''C'', ''D''], [''A'', ''B'', ''C'', ''D'', ''C'', ''D'']))
   \<and> map_option (map_sum id processed)
       (run 6 (example_env checkpoint_AB (\<lambda>k. True) ok_child) example_handlers resume_opts
          (serial_schedule 2))
     = Some (Inr 6)"
  by code_simp

text \<open>
  Claim C3 (checkpoint monotonicity) fails for a handler that resolves to \<open>undefined\<close>, as
  an \<open>async\<close> function does that ends without \<open>return\<close>. The scanned ids are pairwise
  distinct. The \<open>try\<close> block pushes the id of \<open>A\<close> and a record, saves the checkpoint, and
  then throws at \<open>result.status\<close>; the \<open>catch\<close> block pushes the id of \<open>A\<close> and an error
  record again and saves the checkpoint: \<open>completed\<close> holds \<open>A\<close> twice, in memory and in the
  last snapshot.
\<close>

theorem handler_without_result_recorded_twice:
  "scan undefined_handlers (run_cwd fresh_env fresh_opts) = Inr example_items
   \<and> distinct (map item_id example_items)
   \<and> map_option
       (\<lambda>s. (prog_completed s, distinct (prog_completed s),
             map rec_status (heap s ! prog_results s),
             map (\<lambda>(snap, ok). p_completed snap) (saved s)))
       (case run_init 2 fresh_env undefined_handlers fresh_opts of
          Inl err \<Rightarrow> None
        | Inr s0 \<Rightarrow>
            runWithConcurrency_events (process_item undefined_handlers (child fresh_env))
              (checkpoint_write_ok fresh_env) [Start, Start, Record 0, Record 0] s0)
     = Some ([''A'', ''A''], False, [None, Some ''error''], [[], [''A''], [''A'', ''A'']])"
  by code_simp

text \<open>
  Claim C3 as amended: for runs in which \<open>handleResult\<close> resolves to an object for every
  item, as \<open>TaskHandlers\<close> declares. Let the items of the run have pairwise distinct ids: in
  a run that scans they are what \<open>scan\<close> returned (lemma \<open>run_init_fresh\<close>), in a run that
  resumes they are those of the checkpoint, which is then taken to be consistent itself.
  After every sequence of events of the pool, handlers that throw, reject or end the
  process among them, the progress object satisfies, and every snapshot handed to
  \<open>writeJsonSafe\<close> satisfies: \<open>completed\<close> has no id twice, holds ids of \<open>items\<close> only, and is
  as long as \<open>results\<close>.
\<close>

theorem checkpoint_invariant:
  assumes "run_init n e h opts = Inr s0"
    and "distinct (map item_id (prog_items s0))"
    and "scans e opts \<or> progress_ok (loadProgress e)"
    and "resolves_to_objects h (tasks s0)"
    and "runWithConcurrency_events (process_item h (child e)) (checkpoint_write_ok e) evs s0
           = Some s"
  shows "progress_ok (snapshot s) \<and> (\<forall>(snap, ok) \<in> set (saved s). progress_ok snap)"
proof -
  let ?o = "process_item h (child e)"
  note once = process_item_once [OF assms(4), of "child e"]
  from run_init_items_ok [OF assms(1-3), of ?o] obtain c0 r0 where
    inv: "pool_inv ?o c0 r0 s0" and it: "items_ok c0 r0 s0" and so: "saved_ok s0"
    by blast
  from exec_pool_inv [OF inv assms(5)]
  have inv': "pool_inv ?o c0 r0 s" and f: "same_frame s0 s"
    by auto
  from f once have once': "records_once ?o (tasks s)" by (simp add: same_frame_def)
  have "progress_ok (snapshot s)"
    by (rule pool_inv_progress_ok [OF once' inv' items_ok_frame [OF f it]])
  moreover have "saved_ok s"
    by (rule exec_saved_ok [OF once inv it so assms(5)])
  ultimately show ?thesis by (simp add: saved_ok_def)
qed

text \<open>
  Two of four items started, the second recorded before the first.
\<close>

theorem checkpoint_invariant_witness:
  "run_init 2 fresh_env example_handlers fresh_opts = Inr (fresh_start 2 (\<lambda>k. True))
   \<and> scan example_handlers (run_cwd fresh_env fresh_opts) = Inr example_items
   \<and> prog_items (fresh_start 2 (\<lambda>k. True)) = example_items
   \<and> distinct (map item_id (prog_items (fresh_start 2 (\<lambda>k. True))))
   \<and> scans fresh_env fresh_opts
   \<and> resolves_to_objects example_handlers (tasks (fresh_start 2 (\<lambda>k. True)))
   \<and> (\<exists>s. runWithConcurrency_events (process_item example_handlers (child fresh_env))
              (checkpoint_write_ok fresh_env)
              [Start, Start, Record 1, Settle 1, Record 0] (fresh_start 2 (\<lambda>k. True)) = Some s
          \<and> p_completed (snapshot s) = [''B'', ''A'']
          \<and> length (saved s) = 3
          \<and> progress_ok (snapshot s)
          \<and> (\<forall>(snap, ok) \<in> set (saved s). progress_ok snap))"
proof -
  have i: "run_init 2 fresh_env example_handlers fresh_opts = Inr (fresh_start 2 (\<lambda>k. True))"
    by code_simp
  have sc: "scans fresh_env fresh_opts"
    by code_simp
  have scn: "scan example_handlers (run_cwd fresh_env fresh_opts) = Inr example_items"
    by (simp add: example_handlers_def)
  have p: "prog_items (fresh_start 2 (\<lambda>k. True)) = example_items"
    by code_simp
  have d: "distinct (map item_id (prog_items (fresh_start 2 (\<lambda>k. True))))"
    by code_simp
  have o: "resolves_to_objects example_handlers (tasks (fresh_start 2 (\<lambda>k. True)))"
    by (simp add: resolves_to_objects_def example_handlers_def)
  have "map_option (\<lambda>s. (p_completed (snapshot s), length (saved s)))
      (runWithConcurrency_events (process_item example_handlers (child fresh_env))
         (checkpoint_write_ok fresh_env)
         [Start, Start, Record 1, Settle 1, Record 0] (fresh_start 2 (\<lambda>k. True)))
      = Some ([''B'', ''A''], 3)"
    by code_simp
  then obtain s where
    ex: "runWithConcurrency_events (process_item example_handlers (child fresh_env))
           (checkpoint_write_ok fresh_env)
           [Start, Start, Record 1, Settle 1, Record 0] (fresh_start 2 (\<lambda>k. True)) = Some s"
    and c: "p_completed (snapshot s) = [''B'', ''A'']" "length (saved s) = 3"
    by auto
  note T = checkpoint_invariant [OF i d disjI1 [OF sc] o ex]
  from T have a: "progress_ok (snapshot s)" by (elim conjE)
  from T have b: "\<forall>(snap, ok) \<in> set (saved s). progress_ok snap" by (elim conjE)
  show ?thesis
    by (intro conjI exI [of _ s]) (rule i scn p d sc o ex c a b)+
qed




text \<open>
  Claim C8 (concurrency bound). With a concurrency of at least 1, after any sequence of
  events of the pool the promises in \<open>executing\<close>, among which are those of all handler
  invocations in flight, number at most the concurrency.
\<close>

theorem concurrency_bound:
  assumes "1 \<le> n" and "run_init n e h opts = Inr s0"
    and "runWithConcurrency_events outcome w evs s0 = Some s"
  shows "int (length (executing s)) \<le> n"
proof -
  from run_init_start [OF assms(2)] assms(1) have "conc_inv s0" "limit s0 = n"
    by (auto simp: conc_inv_def executing_def)
  from exec_conc_inv [OF this(1) assms(3)] this(2) show ?thesis
    by (auto simp: conc_inv_def split: if_splits)
qed

text \<open>
  With concurrency 2 and four items, after two starts the loop waits and cannot start a
  third handler.
\<close>

theorem concurrency_bound_witness:
  "(1::int) \<le> 2
   \<and> run_init 2 fresh_env example_handlers fresh_opts = Inr (fresh_start 2 (\<lambda>k. True))
   \<and> (\<exists>s. runWithConcurrency_events (process_item example_handlers ok_child) (\<lambda>k. True) [Start, Start] (fresh_start 2 (\<lambda>k. True))
            = Some s
          \<and> executing s = [0, 1] \<and> waiting s
          \<and> runWithConcurrency_step (process_item example_handlers ok_child) (\<lambda>k. True) s Start = None
          \<and> int (length (executing s)) \<le> 2)"
proof -
  have i: "run_init 2 fresh_env example_handlers fresh_opts = Inr (fresh_start 2 (\<lambda>k. True))"
    by code_simp
  have "map_option (\<lambda>s. (executing s, waiting s,
           runWithConcurrency_step (process_item example_handlers ok_child) (\<lambda>k. True) s Start))
      (runWithConcurrency_events (process_item example_handlers ok_child) (\<lambda>k. True) [Start, Start] (fresh_start 2 (\<lambda>k. True)))
      = Some ([0, 1], True, None)"
    by code_simp
  then obtain s where
    ex: "runWithConcurrency_events (process_item example_handlers ok_child) (\<lambda>k. True) [Start, Start] (fresh_start 2 (\<lambda>k. True))
           = Some s"
    and c: "executing s = [0, 1]" "waiting s"
      "runWithConcurrency_step (process_item example_handlers ok_child) (\<lambda>k. True) s Start = None"
    by auto
  have n: "(1::int) \<le> 2" by simp
  from concurrency_bound [OF n i ex] n i ex c show ?thesis by blast
qed

text \<open>
  Claim C9 (propagation policy) says that a failure to write the checkpoint is fatal to
  the run. In \<open>run\<close> it is not: here every one of the five writes of the checkpoint fails,
  and the run completes with status \<open>success\<close> and all four items processed, as it does
  when every write succeeds (lemma \<open>run_write_ok\<close>).
\<close>

theorem checkpoint_write_failure_ignored:
  "map_option (map_sum id (\<lambda>s. map snd (saved s)))
     (run_pool 2 failing_writes_env example_handlers fresh_opts interleaved)
   = Some (Inr [False, False, False, False, False])
   \<and> map_option (map_sum id (\<lambda>r. (rd_status r, processed r, failed r)))
       (run 2 failing_writes_env example_handlers fresh_opts interleaved)
     = Some (Inr (''success'', 4, 0))"
  by code_simp

text \<open>
  Claim C10 (unreadable checkpoint). When the progress file is missing, unreadable or not
  valid JSON, \<open>loadProgress\<close> returns the default with status \<open>idle\<close>, and a run asked to
  resume starts and ends exactly as a run not asked to: it scans, processes every item
  scanned, and has no prior results.
\<close>

theorem unreadable_checkpoint_falls_back:
  assumes "progress_file e = Missing \<or> progress_file e = Unreadable \<or> progress_file e = Text None"
  shows "loadProgress e = \<lparr>p_status = ''idle'', p_items = [], p_completed = [], p_results = []\<rparr>
     \<and> run_init n e h \<lparr>resume = Some True, cwd = c\<rparr> = run_init n e h \<lparr>resume = Some False, cwd = c\<rparr>
     \<and> run n e h \<lparr>resume = Some True, cwd = c\<rparr> sched = run n e h \<lparr>resume = Some False, cwd = c\<rparr> sched
     \<and> (run_init n e h \<lparr>resume = Some True, cwd = c\<rparr> = Inr s0 \<longrightarrow>
          scan h (run_cwd e \<lparr>resume = Some True, cwd = c\<rparr>) = Inr (tasks s0)
          \<and> prog_items s0 = tasks s0 \<and> prog_completed s0 = []
          \<and> heap s0 ! existingResults s0 = [])"
proof -
  from assms have l: "loadProgress e
      = \<lparr>p_status = ''idle'', p_items = [], p_completed = [], p_results = []\<rparr>"
    by (auto simp: loadProgress_def readJsonSafe_def)
  then have i: "run_init n e h \<lparr>resume = Some True, cwd = c\<rparr>
      = run_init n e h \<lparr>resume = Some False, cwd = c\<rparr>"
    by (simp add: run_init_def run_cwd_def)
  then have r: "run n e h \<lparr>resume = Some True, cwd = c\<rparr> sched
      = run n e h \<lparr>resume = Some False, cwd = c\<rparr> sched"
    by (simp add: run_def run_pool_def)
  from l have sc: "scans e \<lparr>resume = Some True, cwd = c\<rparr>" by (simp add: scans_def)
  have "scan h (run_cwd e \<lparr>resume = Some True, cwd = c\<rparr>) = Inr (tasks s0)
          \<and> prog_items s0 = tasks s0 \<and> prog_completed s0 = []
          \<and> heap s0 ! existingResults s0 = []"
    if "run_init n e h \<lparr>resume = Some True, cwd = c\<rparr> = Inr s0"
    using run_init_fresh [OF that sc, of undefined] run_init_start [OF that]
    by (auto simp: pool_inv_def)
  with l i r show ?thesis by blast
qed

text \<open>
  No progress file, \<open>resume\<close> set: the run starts from the four scanned items.
\<close>

theorem unreadable_checkpoint_falls_back_witness:
  "(progress_file fresh_env = Missing \<or> progress_file fresh_env = Unreadable
      \<or> progress_file fresh_env = Text None)
   \<and> loadProgress fresh_env
       = \<lparr>p_status = ''idle'', p_items = [], p_completed = [], p_results = []\<rparr>
   \<and> run_init 6 fresh_env example_handlers \<lparr>resume = Some True, cwd = None\<rparr>
       = Inr (fresh_start 6 (\<lambda>k. True))
   \<and> tasks (fresh_start 6 (\<lambda>k. True)) = example_items
   \<and> heap (fresh_start 6 (\<lambda>k. True)) ! existingResults (fresh_start 6 (\<lambda>k. True)) = []
   \<and> run 6 fresh_env example_handlers \<lparr>resume = Some True, cwd = None\<rparr> (serial_schedule 4)
       = run 6 fresh_env example_handlers \<lparr>resume = Some False, cwd = None\<rparr> (serial_schedule 4)"
proof -
  have m: "progress_file fresh_env = Missing \<or> progress_file fresh_env = Unreadable
      \<or> progress_file fresh_env = Text None"
    by code_simp
  have i: "run_init 6 fresh_env example_handlers \<lparr>resume = Some True, cwd = None\<rparr>
       = Inr (fresh_start 6 (\<lambda>k. True))"
    by code_simp
  have t: "tasks (fresh_start 6 (\<lambda>k. True)) = example_items"
    by code_simp
  note T = unreadable_checkpoint_falls_back [OF m, of 6 example_handlers None
      "serial_schedule 4" "fresh_start 6 (\<lambda>k. True)"]
  from T have l: "loadProgress fresh_env
       = \<lparr>p_status = ''idle'', p_items = [], p_completed = [], p_results = []\<rparr>"
    by (elim conjE)
  from T have r: "run 6 fresh_env example_handlers \<lparr>resume = Some True, cwd = None\<rparr>
        (serial_schedule 4)
       = run 6 fresh_env example_handlers \<lparr>resume = Some False, cwd = None\<rparr> (serial_schedule 4)"
    by (elim conjE)
  from T i have h: "heap (fresh_start 6 (\<lambda>k. True)) ! existingResults (fresh_start 6 (\<lambda>k. True)) = []"
    by (elim conjE) simp
  show ?thesis
    by (intro conjI) (rule m l i t h r)+
qed

end
